theory Spec2Isabelle
  imports Main
begin

section \<open>JavaScript strings\<close>

text \<open>
  A JavaScript string is a sequence of UTF-16 code units. The development covers the
  strings whose code units are below 256 (ASCII and Latin-1): one \<^typ>\<open>char\<close> is one
  code unit, and \<open>code c\<close> is its number. On that range \<open>toLowerCase\<close> maps one code
  unit to one code unit, and the regular expressions of the sources (which have no
  \<open>u\<close> or \<open>i\<close> flag) look at single code units.
\<close>

abbreviation code :: "char \<Rightarrow> nat" where
  "code c \<equiv> of_char c"

text \<open>The character class \<open>[a-z0-9]\<close> of \<open>slugify\<close>.\<close>

definition is_lower_alnum :: "char \<Rightarrow> bool" where
  "is_lower_alnum c \<longleftrightarrow> (97 \<le> code c \<and> code c \<le> 122) \<or> (48 \<le> code c \<and> code c \<le> 57)"

text \<open>The letters and digits of ASCII, \<open>[A-Za-z0-9]\<close>.\<close>

definition is_ascii_alnum :: "char \<Rightarrow> bool" where
  "is_ascii_alnum c \<longleftrightarrow>
     (65 \<le> code c \<and> code c \<le> 90) \<or> (97 \<le> code c \<and> code c \<le> 122) \<or> (48 \<le> code c \<and> code c \<le> 57)"

text \<open>The character class \<open>\d\<close>: without the \<open>u\<close> flag it is \<open>[0-9]\<close>.\<close>

definition is_digit :: "char \<Rightarrow> bool" where
  "is_digit c \<longleftrightarrow> 48 \<le> code c \<and> code c \<le> 57"

text \<open>
  What \<open>String.prototype.trim\<close> removes, below 256: TAB, LF, VT, FF, CR, SPACE and
  NO-BREAK SPACE.
\<close>

definition is_space :: "char \<Rightarrow> bool" where
  "is_space c \<longleftrightarrow> (9 \<le> code c \<and> code c \<le> 13) \<or> code c = 32 \<or> code c = 160"

text \<open>Dropping the longest prefix and the longest suffix whose elements satisfy \<open>P\<close>.\<close>

definition strip_ends :: "('a \<Rightarrow> bool) \<Rightarrow> 'a list \<Rightarrow> 'a list" where
  "strip_ends P xs = rev (dropWhile P (rev (dropWhile P xs)))"

definition trim :: "string \<Rightarrow> string" where
  "trim s = strip_ends is_space s"

text \<open>
  \<open>toLowerCase\<close> below 256: \<open>A\<close>..\<open>Z\<close> and the Latin-1 capitals U+00C0..U+00DE
  (U+00D7, the multiplication sign, apart) move up by 32; every other code unit stays.
\<close>

definition lower_char :: "char \<Rightarrow> char" where
  "lower_char c =
     (if (65 \<le> code c \<and> code c \<le> 90) \<or> (192 \<le> code c \<and> code c \<le> 222 \<and> code c \<noteq> 215)
      then char_of (code c + 32) else c)"

definition toLowerCase :: "string \<Rightarrow> string" where
  "toLowerCase s = map lower_char s"

section \<open>The slug generator\<close>

text \<open>
  \<open>.replace(/[^a-z0-9]+/g, '-')\<close>: every maximal run of code units outside \<open>[a-z0-9]\<close>
  becomes one hyphen.
\<close>

function replace_non_alnum_runs :: "string \<Rightarrow> string" where
  "replace_non_alnum_runs [] = []"
| "replace_non_alnum_runs (c # cs) =
     (if is_lower_alnum c then c # replace_non_alnum_runs cs
      else CHR ''-'' # replace_non_alnum_runs (dropWhile (\<lambda>d. \<not> is_lower_alnum d) cs))"
  by pat_completeness auto
termination
  by (relation "measure length") (auto simp: le_imp_less_Suc length_dropWhile_le)

text \<open>
  \<open>.replace(/^-+|-+$/g, '')\<close>: the first alternative matches the hyphens at the start,
  the second the hyphens at the end; both are deleted.
\<close>

definition strip_hyphens :: "string \<Rightarrow> string" where
  "strip_hyphens s = strip_ends (\<lambda>c. c = CHR ''-'') s"

definition slugify :: "string \<Rightarrow> string" where
  "slugify title = strip_hyphens (replace_non_alnum_runs (trim (toLowerCase title)))"

text \<open>Two hyphens side by side somewhere in a string.\<close>

fun adjacent_hyphens :: "string \<Rightarrow> bool" where
  "adjacent_hyphens (a # b # cs) = ((a = CHR ''-'' \<and> b = CHR ''-'') \<or> adjacent_hyphens (b # cs))"
| "adjacent_hyphens _ = False"

section \<open>Numbers and their decimal strings\<close>

datatype error =
    InvalidEventDate          \<comment> \<open>\<open>'Invalid event date'\<close>\<close>
  | InvalidEventTimeFormat    \<comment> \<open>\<open>'Invalid event time format. Expected HH:MM'\<close>\<close>
  | InvalidEventTimeValue     \<comment> \<open>\<open>'Invalid event time value'\<close>\<close>
  | UnableToGenerateSlug      \<comment> \<open>\<open>'Unable to generate slug from title'\<close>\<close>
  | ReferencedEventMissing    \<comment> \<open>\<open>'Cannot create booking: referenced event does not exist.'\<close>\<close>

text \<open>\<open>Number(s)\<close> for a string of decimal digits, as the patterns below capture them.\<close>

definition digit_value :: "char \<Rightarrow> int" where
  "digit_value c = int (code c) - 48"

definition Number :: "string \<Rightarrow> int" where
  "Number s = foldl (\<lambda>n c. 10 * n + digit_value c) 0 s"

text \<open>
  \<open>n.toString()\<close> for an integer: decimal digits, no leading zero, a minus sign below zero.
  \<open>digits_of\<close> writes a number that is not negative.
\<close>

function digits_of :: "int \<Rightarrow> string" where
  "digits_of n =
     (if n < 10 then [char_of (48 + n)] else digits_of (n div 10) @ [char_of (48 + n mod 10)])"
  by pat_completeness auto
termination
  by (relation "measure nat") auto

declare digits_of.simps [simp del]

definition toString :: "int \<Rightarrow> string" where
  "toString i = (if i < 0 then CHR ''-'' # digits_of (- i) else digits_of i)"

text \<open>\<open>s.padStart(n, c)\<close> with a filler of one character.\<close>

definition padStart :: "nat \<Rightarrow> char \<Rightarrow> string \<Rightarrow> string" where
  "padStart n c s = replicate (n - length s) c @ s"

section \<open>The time normalizer\<close>

text \<open>
  \<open>trimmed.match(/^(\d{1,2}):(\d{2})$/)\<close>: the two captured groups, or \<open>None\<close> for
  \<open>null\<close>. Without the \<open>m\<close> flag \<open>$\<close> is the end of the string.
\<close>

fun match_time :: "string \<Rightarrow> (string \<times> string) option" where
  "match_time [h, c, m1, m2] =
     (if is_digit h \<and> c = CHR '':'' \<and> is_digit m1 \<and> is_digit m2
      then Some ([h], [m1, m2]) else None)"
| "match_time [h1, h2, c, m1, m2] =
     (if is_digit h1 \<and> is_digit h2 \<and> c = CHR '':'' \<and> is_digit m1 \<and> is_digit m2
      then Some ([h1, h2], [m1, m2]) else None)"
| "match_time _ = None"

definition normalizeTime :: "string \<Rightarrow> error + string" where
  "normalizeTime timeInput =
     (let trimmed = trim timeInput in
      case match_time trimmed of
        None \<Rightarrow> Inl InvalidEventTimeFormat
      | Some (g1, g2) \<Rightarrow>
          let hours = Number g1; minutes = Number g2 in
          if hours < 0 \<or> hours > 23 \<or> minutes < 0 \<or> minutes > 59
          then Inl InvalidEventTimeValue
          else
            let normalizedHours = padStart 2 CHR ''0'' (toString hours);
                normalizedMinutes = padStart 2 CHR ''0'' (toString minutes)
            in Inr (normalizedHours @ '':'' @ normalizedMinutes))"

section \<open>Dates\<close>

text \<open>
  A time value is a number of milliseconds since 1970-01-01T00:00:00Z; the calendar
  functions are those of ECMA-262 (\<open>Day\<close>, \<open>DayFromYear\<close>, \<open>YearFromTime\<close>,
  \<open>MonthFromTime\<close>, \<open>DateFromTime\<close>, \<open>MakeDay\<close>, \<open>TimeClip\<close>), on integers.
\<close>

definition msPerDay :: int where
  "msPerDay = 86400000"

definition Day :: "int \<Rightarrow> int" where
  "Day t = t div msPerDay"

definition TimeWithinDay :: "int \<Rightarrow> int" where
  "TimeWithinDay t = t mod msPerDay"

definition DayFromYear :: "int \<Rightarrow> int" where
  "DayFromYear y =
     365 * (y - 1970) + (y - 1969) div 4 - (y - 1901) div 100 + (y - 1601) div 400"

definition InLeapYear :: "int \<Rightarrow> int" where
  "InLeapYear y = (if (y mod 4 = 0 \<and> y mod 100 \<noteq> 0) \<or> y mod 400 = 0 then 1 else 0)"

text \<open>
  The year of a day number: the largest \<open>y\<close> with \<open>DayFromYear y \<le> d\<close>. It is computed
  from the mean length of a year, 146097 days in 400 years, and corrected by one.
\<close>

definition YearFromDay :: "int \<Rightarrow> int" where
  "YearFromDay d =
     (let y = 1970 + (400 * d) div 146097 in
      if d < DayFromYear y then y - 1
      else if DayFromYear (y + 1) \<le> d then y + 1
      else y)"

definition YearFromTime :: "int \<Rightarrow> int" where
  "YearFromTime t = YearFromDay (Day t)"

definition DayWithinYear :: "int \<Rightarrow> int" where
  "DayWithinYear t = Day t - DayFromYear (YearFromTime t)"

text \<open>The month (0 to 11) and the day of the month of day \<open>d\<close> of a year; \<open>l\<close> is \<open>InLeapYear\<close>.\<close>

definition month_of_day :: "int \<Rightarrow> int \<Rightarrow> int" where
  "month_of_day l d =
     (if d < 31 then 0 else if d < 59 + l then 1 else if d < 90 + l then 2
      else if d < 120 + l then 3 else if d < 151 + l then 4 else if d < 181 + l then 5
      else if d < 212 + l then 6 else if d < 243 + l then 7 else if d < 273 + l then 8
      else if d < 304 + l then 9 else if d < 334 + l then 10 else 11)"

definition month_start :: "int \<Rightarrow> int \<Rightarrow> int" where
  "month_start l m =
     (if m = 0 then 0 else if m = 1 then 31 else if m = 2 then 59 + l
      else if m = 3 then 90 + l else if m = 4 then 120 + l else if m = 5 then 151 + l
      else if m = 6 then 181 + l else if m = 7 then 212 + l else if m = 8 then 243 + l
      else if m = 9 then 273 + l else if m = 10 then 304 + l else 334 + l)"

definition MonthFromTime :: "int \<Rightarrow> int" where
  "MonthFromTime t = month_of_day (InLeapYear (YearFromTime t)) (DayWithinYear t)"

definition DateFromTime :: "int \<Rightarrow> int" where
  "DateFromTime t =
     DayWithinYear t - month_start (InLeapYear (YearFromTime t)) (MonthFromTime t) + 1"

definition DaysInMonth :: "int \<Rightarrow> int \<Rightarrow> int" where
  "DaysInMonth y m =
     (if m = 1 then 28 + InLeapYear y
      else if m = 3 \<or> m = 5 \<or> m = 8 \<or> m = 10 then 30 else 31)"

text \<open>\<open>MakeDay(year, month, date)\<close> for a month from 0 to 11.\<close>

definition MakeDay :: "int \<Rightarrow> int \<Rightarrow> int \<Rightarrow> int" where
  "MakeDay y m dt = DayFromYear y + month_start (InLeapYear y) m + dt - 1"

definition TimeClip :: "int \<Rightarrow> int option" where
  "TimeClip t = (if \<bar>t\<bar> > 8640000000000000 then None else Some t)"

subsection \<open>Parsing\<close>

text \<open>
  The date-only forms of the Date Time String Format, \<open>YYYY\<close>, \<open>YYYY-MM\<close> and
  \<open>YYYY-MM-DD\<close>, the year written with four digits or with a sign and six digits
  (\<open>-000000\<close> is not a year). They denote midnight UTC of a day of the calendar.
\<close>

definition all_digits :: "nat \<Rightarrow> string \<Rightarrow> bool" where
  "all_digits n s \<longleftrightarrow> length s = n \<and> list_all is_digit s"

definition parse_year :: "string \<Rightarrow> (int \<times> string) option" where
  "parse_year s =
     (case s of
        [] \<Rightarrow> None
      | c # cs \<Rightarrow>
          if c = CHR ''+'' \<or> c = CHR ''-'' then
            if all_digits 6 (take 6 cs) then
              let y = Number (take 6 cs) in
              if c = CHR ''-'' \<and> y = 0 then None
              else Some (if c = CHR ''-'' then - y else y, drop 6 cs)
            else None
          else if all_digits 4 (take 4 s) then Some (Number (take 4 s), drop 4 s)
          else None)"

text \<open>A hyphen and two digits: \<open>-MM\<close> or \<open>-DD\<close>.\<close>

definition parse_field :: "string \<Rightarrow> (int \<times> string) option" where
  "parse_field s =
     (case s of
        [] \<Rightarrow> None
      | c # cs \<Rightarrow>
          if c = CHR ''-'' \<and> all_digits 2 (take 2 cs) then Some (Number (take 2 cs), drop 2 cs)
          else None)"

definition utc_midnight :: "int \<Rightarrow> int \<Rightarrow> int \<Rightarrow> int option" where
  "utc_midnight y m d =
     (if 1 \<le> m \<and> m \<le> 12 \<and> 1 \<le> d \<and> d \<le> DaysInMonth y (m - 1)
      then Some (MakeDay y (m - 1) d * msPerDay) else None)"

definition parse_date_only :: "string \<Rightarrow> int option" where
  "parse_date_only s =
     (case parse_year s of
        None \<Rightarrow> None
      | Some (y, r1) \<Rightarrow>
          if r1 = [] then utc_midnight y 1 1
          else case parse_field r1 of
            None \<Rightarrow> None
          | Some (m, r2) \<Rightarrow>
              if r2 = [] then utc_midnight y m 1
              else case parse_field r2 of
                None \<Rightarrow> None
              | Some (d, r3) \<Rightarrow> if r3 = [] then utc_midnight y m d else None)"

text \<open>
  \<open>new Date(s)\<close>, as its time value (\<open>None\<close> is \<open>NaN\<close>, an invalid date). A string in
  one of the date-only forms is read as above, on every engine. Any other string, a date
  with a time of day (read in the time zone of the host when it carries no offset) or a
  format that only some engines read, is left to the engine: \<open>engine\<close> is what it makes
  of such a string, and nothing is assumed of it.
\<close>

type_synonym date_parser = "string \<Rightarrow> int option"

definition new_Date :: "date_parser \<Rightarrow> string \<Rightarrow> int option" where
  "new_Date engine s =
     (case parse_date_only s of
        Some t \<Rightarrow> TimeClip t
      | None \<Rightarrow> (case engine s of Some t \<Rightarrow> TimeClip t | None \<Rightarrow> None))"

subsection \<open>Printing\<close>

definition year_string :: "int \<Rightarrow> string" where
  "year_string y =
     (if 0 \<le> y \<and> y \<le> 9999 then padStart 4 CHR ''0'' (toString y)
      else (if y < 0 then CHR ''-'' else CHR ''+'') # padStart 6 CHR ''0'' (toString \<bar>y\<bar>))"

definition date_string :: "int \<Rightarrow> string" where
  "date_string t =
     year_string (YearFromTime t) @ ''-'' @ padStart 2 CHR ''0'' (toString (MonthFromTime t + 1))
       @ ''-'' @ padStart 2 CHR ''0'' (toString (DateFromTime t))"

definition time_string :: "int \<Rightarrow> string" where
  "time_string t =
     (let ms = TimeWithinDay t in
      padStart 2 CHR ''0'' (toString (ms div 3600000)) @ '':''
        @ padStart 2 CHR ''0'' (toString (ms div 60000 mod 60)) @ '':''
        @ padStart 2 CHR ''0'' (toString (ms div 1000 mod 60)) @ ''.''
        @ padStart 3 CHR ''0'' (toString (ms mod 1000)))"

text \<open>\<open>toISOString\<close> of a valid date: \<open>YYYY-MM-DDTHH:mm:ss.sssZ\<close>, in UTC.\<close>

definition toISOString :: "int \<Rightarrow> string" where
  "toISOString t = date_string t @ ''T'' @ time_string t @ ''Z''"

text \<open>\<open>s.split('T')[0]\<close>: the part of \<open>s\<close> before its first \<open>T\<close>.\<close>

definition before_T :: "string \<Rightarrow> string" where
  "before_T s = takeWhile (\<lambda>c. c \<noteq> CHR ''T'') s"

subsection \<open>The date normalizer\<close>

definition normalizeDate :: "date_parser \<Rightarrow> string \<Rightarrow> error + string" where
  "normalizeDate engine dateInput =
     (case new_Date engine dateInput of
        None \<Rightarrow> Inl InvalidEventDate
      | Some parsed \<Rightarrow> Inr (before_T (toISOString parsed)))"

section \<open>The Event document and its validation hook\<close>

text \<open>
  An Event document: the attributes of \<open>EventAttributes\<close> (\<open>image'\<close> is its \<open>image\<close>), and
  what the hook reads of the document's state, \<open>isNew\<close> and the paths that \<open>isModified\<close>
  answers for.
\<close>

record EventDocument =
  title :: string
  slug :: string
  description :: string
  overview :: string
  image' :: string
  venue :: string
  location :: string
  date :: string
  time :: string
  mode :: string
  audience :: string
  agenda :: "string list"
  organizer :: string
  tags :: "string list"
  createdAt :: "int option"
  updatedAt :: "int option"
  isNew :: bool
  modifiedPaths :: "string list"






section \<open>The Booking document and its save hook\<close>

type_synonym objectId = nat

record BookingDocument =
  eventId :: objectId
  email :: string
  eventId_modified :: bool   \<comment> \<open>\<open>this.isModified('eventId')\<close>\<close>

text \<open>
  The database: the identifiers of the stored Events, the stored Bookings, and the
  identifiers that \<open>Event.exists\<close> has been asked for, in order.
\<close>

record database =
  events :: "objectId list"
  bookings :: "(objectId \<times> string) list"
  exists_queries :: "objectId list"

text \<open>
  \<open>Event.exists({ _id: i })\<close>: the answer, and the database with the query recorded. The
  database is taken to answer; a query that it rejects is not part of the model.
\<close>

definition Event_exists :: "database \<Rightarrow> objectId \<Rightarrow> bool \<times> database" where
  "Event_exists db i = (i \<in> set (events db), db\<lparr>exists_queries := exists_queries db @ [i]\<rparr>)"

definition preSave :: "database \<Rightarrow> BookingDocument \<Rightarrow> error option \<times> database" where
  "preSave db this =
     (if \<not> eventId_modified this then (None, db)
      else
        let (eventExists, db') = Event_exists db (eventId this) in
        if \<not> eventExists then (Some ReferencedEventMissing, db')
        else (None, db'))"

text \<open>
  Saving a Booking that has passed validation: the hook runs first, and the document is
  written only when the hook has called \<open>next\<close> without an error.
\<close>

definition save :: "database \<Rightarrow> BookingDocument \<Rightarrow> error option \<times> database" where
  "save db this =
     (case preSave db this of
        (Some e, db') \<Rightarrow> (Some e, db')
      | (None, db') \<Rightarrow> (None, db'\<lparr>bookings := bookings db' @ [(eventId this, email this)]\<rparr>))"

section \<open>The connection cache\<close>

text \<open>
  A process is the cache, the promises that \<open>mongoose.connect\<close> has returned (one for each
  call of it, in order) and the calls of \<open>connectToDatabase\<close> (in order). A call runs
  without interruption up to its \<open>await\<close> and from there to its end; between the two,
  other calls may start, the driver may settle a promise, and other calls may resume.
\<close>

type_synonym handle = nat
type_synonym failure = string

datatype promise_state = Pending | Fulfilled handle | Rejected failure

datatype call_state = Awaiting nat | Returned handle | Threw failure

record MongooseCache =
  conn :: "handle option"
  promise :: "nat option"

record process =
  cached :: MongooseCache
  promises :: "promise_state list"
  calls :: "call_state list"

definition start :: process where
  "start = \<lparr>cached = \<lparr>conn = None, promise = None\<rparr>, promises = [], calls = []\<rparr>"

text \<open>\<open>mongoose.connect(...)\<close>: a new pending promise.\<close>

definition mongoose_connect :: "process \<Rightarrow> nat \<times> process" where
  "mongoose_connect s = (length (promises s), s\<lparr>promises := promises s @ [Pending]\<rparr>)"

text \<open>A call of \<open>connectToDatabase\<close>, up to its \<open>return\<close> or its \<open>await\<close>.\<close>

definition connectToDatabase :: "process \<Rightarrow> process" where
  "connectToDatabase s =
     (case conn (cached s) of
        Some h \<Rightarrow> s\<lparr>calls := calls s @ [Returned h]\<rparr>
      | None \<Rightarrow>
          (case promise (cached s) of
             Some p \<Rightarrow> s\<lparr>calls := calls s @ [Awaiting p]\<rparr>
           | None \<Rightarrow>
               let (p, s') = mongoose_connect s in
               s'\<lparr>cached := (cached s')\<lparr>promise := Some p\<rparr>, calls := calls s' @ [Awaiting p]\<rparr>))"

text \<open>The driver settles promise \<open>p\<close>, if it is pending.\<close>

definition settle :: "nat \<Rightarrow> failure + handle \<Rightarrow> process \<Rightarrow> process" where
  "settle p r s =
     (if p < length (promises s) \<and> promises s ! p = Pending
      then s\<lparr>promises := (promises s)[p := (case r of Inl e \<Rightarrow> Rejected e | Inr h \<Rightarrow> Fulfilled h)]\<rparr>
      else s)"

text \<open>
  Call \<open>c\<close> goes on after its \<open>await\<close>, if the promise it awaits is settled:
  \<open>cached.conn = await cached.promise; return cached.conn\<close>, or the rejection thrown.
\<close>

definition resume :: "nat \<Rightarrow> process \<Rightarrow> process" where
  "resume c s =
     (if c < length (calls s) then
        (case calls s ! c of
           Awaiting p \<Rightarrow>
             (if p < length (promises s) then
                (case promises s ! p of
                   Pending \<Rightarrow> s
                 | Fulfilled h \<Rightarrow>
                     s\<lparr>cached := (cached s)\<lparr>conn := Some h\<rparr>, calls := (calls s)[c := Returned h]\<rparr>
                 | Rejected e \<Rightarrow> s\<lparr>calls := (calls s)[c := Threw e]\<rparr>)
              else s)
         | _ \<Rightarrow> s)
      else s)"

datatype event = Call | Settle nat "failure + handle" | Resume nat

fun step :: "process \<Rightarrow> event \<Rightarrow> process" where
  "step s Call = connectToDatabase s"
| "step s (Settle p r) = settle p r s"
| "step s (Resume c) = resume c s"

definition run :: "process \<Rightarrow> event list \<Rightarrow> process" where
  "run s evs = foldl step s evs"

text \<open>
  What holds of the process whatever has happened: there is at most one promise, the one
  the cache holds; every call awaits it, has returned what it was fulfilled with, or has
  thrown what it was rejected with; and \<open>cached.conn\<close> is what it was fulfilled with.
\<close>

definition cache_inv :: "process \<Rightarrow> bool" where
  "cache_inv s \<longleftrightarrow>
     (promise (cached s) = None \<longrightarrow> promises s = [] \<and> calls s = [] \<and> conn (cached s) = None)
     \<and> (\<forall>p. promise (cached s) = Some p \<longrightarrow> p = 0 \<and> length (promises s) = 1)
     \<and> (\<forall>q. Awaiting q \<in> set (calls s) \<longrightarrow> q = 0)
     \<and> (\<forall>h. Returned h \<in> set (calls s) \<longrightarrow> promises s = [Fulfilled h])
     \<and> (\<forall>e. Threw e \<in> set (calls s) \<longrightarrow> promises s = [Rejected e])
     \<and> (\<forall>h. conn (cached s) = Some h \<longrightarrow> promises s = [Fulfilled h])"

section \<open>Examples\<close>



section \<open>Properties of the slug generator\<close>

lemma hyphen_not_alnum: "\<not> is_lower_alnum CHR ''-''"
  by (simp add: is_lower_alnum_def)

lemma lower_char_alnum: "is_ascii_alnum c \<Longrightarrow> is_lower_alnum (lower_char c)"
  by (auto simp: is_ascii_alnum_def is_lower_alnum_def lower_char_def)

lemma alnum_not_space: "is_lower_alnum c \<Longrightarrow> \<not> is_space c"
  by (auto simp: is_lower_alnum_def is_space_def)

lemma in_dropWhile: "x \<in> set xs \<Longrightarrow> \<not> P x \<Longrightarrow> x \<in> set (dropWhile P xs)"
  by (induction xs) auto

lemma in_strip_ends: "x \<in> set xs \<Longrightarrow> \<not> P x \<Longrightarrow> x \<in> set (strip_ends P xs)"
  by (simp add: strip_ends_def in_dropWhile)

lemma strip_ends_decomp:
  "xs = takeWhile P xs @ strip_ends P xs @ rev (takeWhile P (rev (dropWhile P xs)))"
proof -
  have "rev (dropWhile P xs) = takeWhile P (rev (dropWhile P xs)) @ dropWhile P (rev (dropWhile P xs))"
    by simp
  then have "rev (rev (dropWhile P xs)) = rev (takeWhile P (rev (dropWhile P xs)) @ dropWhile P (rev (dropWhile P xs)))"
    by simp
  then have "dropWhile P xs = strip_ends P xs @ rev (takeWhile P (rev (dropWhile P xs)))"
    unfolding strip_ends_def by (simp only: rev_rev_ident rev_append)
  then have "takeWhile P xs @ dropWhile P xs = takeWhile P xs @ strip_ends P xs @ rev (takeWhile P (rev (dropWhile P xs)))"
    by simp
  then show ?thesis by simp
qed

lemma strip_ends_set: "set (strip_ends P xs) \<subseteq> set xs"
  by (auto simp: strip_ends_def dest!: set_dropWhileD)

lemma strip_ends_hd: "strip_ends P xs \<noteq> [] \<Longrightarrow> \<not> P (hd (strip_ends P xs))"
proof -
  assume ne: "strip_ends P xs \<noteq> []"
  let ?d = "dropWhile P xs"
  have d: "?d = strip_ends P xs @ rev (takeWhile P (rev ?d))"
    using strip_ends_decomp[of xs P] by (metis append_same_eq append_eq_append_conv takeWhile_dropWhile_id same_append_eq)
  then have "?d \<noteq> []" using ne by (metis append_is_Nil_conv)
  then have "\<not> P (hd ?d)" by (rule hd_dropWhile)
  moreover have "hd ?d = hd (strip_ends P xs)" using d ne by (metis hd_append2)
  ultimately show ?thesis by simp
qed

lemma strip_ends_last: "strip_ends P xs \<noteq> [] \<Longrightarrow> \<not> P (last (strip_ends P xs))"
proof -
  assume ne: "strip_ends P xs \<noteq> []"
  then have ne': "dropWhile P (rev (dropWhile P xs)) \<noteq> []" by (simp add: strip_ends_def)
  then have "\<not> P (hd (dropWhile P (rev (dropWhile P xs))))" by (rule hd_dropWhile)
  then show ?thesis using ne' by (simp add: strip_ends_def last_rev)
qed


lemma strip_ends_sublist: "\<exists>a b. xs = a @ strip_ends P xs @ b"
  using strip_ends_decomp[of xs P] by blast

lemma adjacent_hyphens_append:
  "adjacent_hyphens xs \<or> adjacent_hyphens ys \<Longrightarrow> adjacent_hyphens (xs @ ys)"
  by (induction xs rule: adjacent_hyphens.induct) (auto, (cases ys; simp)+)

lemma adjacent_hyphens_nth:
  "adjacent_hyphens s \<longleftrightarrow> (\<exists>i. Suc i < length s \<and> s ! i = CHR ''-'' \<and> s ! Suc i = CHR ''-'')"
proof (induction s rule: adjacent_hyphens.induct)
  case (1 a b cs)
  show ?case
  proof
    assume "adjacent_hyphens (a # b # cs)"
    then consider "a = CHR ''-'' \<and> b = CHR ''-''" | "adjacent_hyphens (b # cs)" by auto
    then show "\<exists>i. Suc i < length (a # b # cs) \<and> (a # b # cs) ! i = CHR ''-'' \<and> (a # b # cs) ! Suc i = CHR ''-''"
    proof cases
      case 1 then show ?thesis by (intro exI[of _ 0]) simp
    next
      case 2
      with "1.IH" obtain i where "Suc i < length (b # cs)" "(b # cs) ! i = CHR ''-''" "(b # cs) ! Suc i = CHR ''-''"
        by blast
      then show ?thesis by (intro exI[of _ "Suc i"]) simp
    qed
  next
    assume "\<exists>i. Suc i < length (a # b # cs) \<and> (a # b # cs) ! i = CHR ''-'' \<and> (a # b # cs) ! Suc i = CHR ''-''"
    then obtain i where i: "Suc i < length (a # b # cs)" "(a # b # cs) ! i = CHR ''-''" "(a # b # cs) ! Suc i = CHR ''-''"
      by blast
    show "adjacent_hyphens (a # b # cs)"
    proof (cases i)
      case 0 with i show ?thesis by simp
    next
      case (Suc j)
      with i have "Suc j < length (b # cs) \<and> (b # cs) ! j = CHR ''-'' \<and> (b # cs) ! Suc j = CHR ''-''" by simp
      with "1.IH" show ?thesis by auto
    qed
  qed
qed simp_all

lemma replace_chars: "c \<in> set (replace_non_alnum_runs s) \<Longrightarrow> is_lower_alnum c \<or> c = CHR ''-''"
  by (induction s rule: replace_non_alnum_runs.induct) (auto split: if_splits)

lemma replace_keeps_alnum: "c \<in> set s \<Longrightarrow> is_lower_alnum c \<Longrightarrow> c \<in> set (replace_non_alnum_runs s)"
  by (induction s rule: replace_non_alnum_runs.induct) (auto simp: in_dropWhile)

lemma replace_hd: "replace_non_alnum_runs s = CHR ''-'' # r \<Longrightarrow> s \<noteq> [] \<and> \<not> is_lower_alnum (hd s)"
  by (cases s) (auto simp: hyphen_not_alnum split: if_splits)

lemma replace_no_adjacent: "\<not> adjacent_hyphens (replace_non_alnum_runs s)"
proof (induction s rule: replace_non_alnum_runs.induct)
  case 1 show ?case by simp
next
  case (2 c cs)
  show ?case
  proof (cases "is_lower_alnum c")
    case True
    with 2 hyphen_not_alnum show ?thesis by (cases "replace_non_alnum_runs cs") auto
  next
    case False
    let ?d = "dropWhile (\<lambda>d. \<not> is_lower_alnum d) cs"
    have "\<not> adjacent_hyphens (replace_non_alnum_runs ?d)" using 2 False by simp
    moreover have "\<And>r. replace_non_alnum_runs ?d \<noteq> CHR ''-'' # r"
    proof
      fix r assume "replace_non_alnum_runs ?d = CHR ''-'' # r"
      then have "?d \<noteq> [] \<and> \<not> is_lower_alnum (hd ?d)" by (rule replace_hd)
      then show False using hd_dropWhile[of "\<lambda>d. \<not> is_lower_alnum d" cs] by blast
    qed
    ultimately show ?thesis using False by (cases "replace_non_alnum_runs ?d") auto
  qed
qed


lemma adjacent_hyphens_part: "\<not> adjacent_hyphens (a @ m @ b) \<Longrightarrow> \<not> adjacent_hyphens m"
  using adjacent_hyphens_append by blast

lemma strip_ends_no_adjacent: "\<not> adjacent_hyphens s \<Longrightarrow> \<not> adjacent_hyphens (strip_ends P s)"
  using strip_ends_decomp[of s P] adjacent_hyphens_part by metis

lemma slugify_nonempty:
  assumes "c \<in> set s" "is_ascii_alnum c"
  shows "slugify s \<noteq> []"
proof -
  let ?l = "lower_char c"
  have l: "is_lower_alnum ?l" using assms(2) by (rule lower_char_alnum)
  have "?l \<in> set (toLowerCase s)" using assms(1) by (simp add: toLowerCase_def)
  then have "?l \<in> set (trim (toLowerCase s))"
    unfolding trim_def using l by (intro in_strip_ends) (auto dest: alnum_not_space)
  then have "?l \<in> set (replace_non_alnum_runs (trim (toLowerCase s)))"
    using l by (rule replace_keeps_alnum)
  moreover have "?l \<noteq> CHR ''-''" using l hyphen_not_alnum by auto
  ultimately have "?l \<in> set (slugify s)"
    unfolding slugify_def strip_hyphens_def by (intro in_strip_ends) auto
  then show ?thesis by auto
qed

lemma slugify_chars: "c \<in> set (slugify s) \<Longrightarrow> is_lower_alnum c \<or> c = CHR ''-''"
  unfolding slugify_def strip_hyphens_def using strip_ends_set replace_chars by fast

lemma slugify_no_adjacent: "\<not> adjacent_hyphens (slugify s)"
  unfolding slugify_def strip_hyphens_def by (intro strip_ends_no_adjacent replace_no_adjacent)

lemma slugify_ends:
  "slugify s \<noteq> [] \<Longrightarrow> hd (slugify s) \<noteq> CHR ''-'' \<and> last (slugify s) \<noteq> CHR ''-''"
  unfolding slugify_def strip_hyphens_def
  using strip_ends_hd[of "\<lambda>c. c = CHR ''-''"] strip_ends_last[of "\<lambda>c. c = CHR ''-''"] by blast

text \<open>
  Claim C2. A title with at least one letter or digit of ASCII has a slug that is not
  empty, is made of the characters \<open>a\<close>..\<open>z\<close>, \<open>0\<close>..\<open>9\<close> and the hyphen, neither starts
  nor ends with a hyphen, and has no two hyphens side by side. The slug of
  \<open>Hello, World!\<close> is \<open>hello-world\<close>, and the slug of \<open>"   ---   "\<close> is empty.
\<close>

theorem slugify_shape:
  "((\<exists>c \<in> set s. is_ascii_alnum c) \<longrightarrow>
      slugify s \<noteq> []
      \<and> (\<forall>c \<in> set (slugify s). is_lower_alnum c \<or> c = CHR ''-'')
      \<and> hd (slugify s) \<noteq> CHR ''-''
      \<and> last (slugify s) \<noteq> CHR ''-''
      \<and> \<not> (\<exists>i. Suc i < length (slugify s)
               \<and> slugify s ! i = CHR ''-'' \<and> slugify s ! Suc i = CHR ''-''))
   \<and> slugify ''Hello, World!'' = ''hello-world''
   \<and> slugify ''   ---   '' = []"
proof (intro conjI impI)
  assume a: "\<exists>c \<in> set s. is_ascii_alnum c"
  then show ne: "slugify s \<noteq> []" using slugify_nonempty by blast
  show "\<forall>c \<in> set (slugify s). is_lower_alnum c \<or> c = CHR ''-''"
    using slugify_chars by blast
  show "hd (slugify s) \<noteq> CHR ''-''" using slugify_ends[OF ne] by simp
  show "last (slugify s) \<noteq> CHR ''-''" using slugify_ends[OF ne] by simp
  show "\<not> (\<exists>i. Suc i < length (slugify s)
               \<and> slugify s ! i = CHR ''-'' \<and> slugify s ! Suc i = CHR ''-'')"
    using slugify_no_adjacent[of s] unfolding adjacent_hyphens_nth .
next
  show "slugify ''Hello, World!'' = ''hello-world''" by code_simp
  show "slugify ''   ---   '' = []" by code_simp
qed

theorem slugify_shape_witness:
  "(\<exists>c \<in> set ''Dev Events 2025''. is_ascii_alnum c)
   \<and> slugify ''Dev Events 2025'' = ''dev-events-2025''
   \<and> hd (slugify ''Dev Events 2025'') \<noteq> CHR ''-''
   \<and> last (slugify ''Dev Events 2025'') \<noteq> CHR ''-''"
proof -
  have h: "\<exists>c \<in> set ''Dev Events 2025''. is_ascii_alnum c"
    by (simp add: is_ascii_alnum_def)
  have v: "slugify ''Dev Events 2025'' = ''dev-events-2025''" by code_simp
  from slugify_shape[of "''Dev Events 2025''"] h
  have "hd (slugify ''Dev Events 2025'') \<noteq> CHR ''-'' \<and> last (slugify ''Dev Events 2025'') \<noteq> CHR ''-''"
    by blast
  with h v show ?thesis by blast
qed

section \<open>Properties of the time normalizer\<close>

lemma int_code: "int (code c) = of_char c"
  by (rule of_nat_of_char)

lemma digit_value_code: "digit_value c = of_char c - 48"
  by (simp add: digit_value_def int_code)

lemma is_digit_int: "is_digit c \<longleftrightarrow> 48 \<le> (of_char c :: int) \<and> (of_char c :: int) \<le> 57"
proof -
  have "is_digit c \<longleftrightarrow> 48 \<le> int (code c) \<and> int (code c) \<le> 57"
    unfolding is_digit_def by linarith
  then show ?thesis by (simp only: int_code)
qed

lemma digit_char_of: "is_digit c \<Longrightarrow> char_of (48 + digit_value c) = c"
  by (simp add: digit_value_code)

lemma digit_value_range: "is_digit c \<Longrightarrow> 0 \<le> digit_value c \<and> digit_value c \<le> 9"
  unfolding is_digit_int digit_value_code by linarith

lemma char_of_48: "char_of (48::int) = CHR ''0''"
  by code_simp

lemma digit_zero: "is_digit c \<Longrightarrow> digit_value c = 0 \<Longrightarrow> c = CHR ''0''"
  using digit_char_of[of c] char_of_48 by simp

lemma digit_not_space: "is_digit c \<Longrightarrow> \<not> is_space c"
  by (auto simp: is_digit_def is_space_def)

lemma Number_1: "Number [a] = digit_value a"
  by (simp add: Number_def)

lemma Number_2: "Number [a, b] = 10 * digit_value a + digit_value b"
  by (simp add: Number_def)

lemma digits_of_small: "n < 10 \<Longrightarrow> digits_of n = [char_of (48 + n)]"
  by (simp add: digits_of.simps)

lemma digits_of_two:
  "10 \<le> n \<Longrightarrow> n < 100 \<Longrightarrow> digits_of n = [char_of (48 + n div 10), char_of (48 + n mod 10)]"
  by (subst digits_of.simps) (simp add: digits_of_small)

lemma pad2_digit:
  assumes "is_digit b"
  shows "padStart 2 CHR ''0'' (toString (Number [b])) = [CHR ''0'', b]"
proof -
  from assms have r: "0 \<le> digit_value b" "digit_value b \<le> 9" using digit_value_range by auto
  then have "toString (Number [b]) = [char_of (48 + digit_value b)]"
    by (simp add: toString_def Number_1 digits_of_small)
  then show ?thesis using assms by (simp add: padStart_def digit_char_of)
qed

lemma pad2_digits:
  assumes "is_digit a" "is_digit b"
  shows "padStart 2 CHR ''0'' (toString (Number [a, b])) = [a, b]"
proof -
  define x where "x = digit_value a"
  define y where "y = digit_value b"
  have xy: "0 \<le> x" "x \<le> 9" "0 \<le> y" "y \<le> 9"
    using digit_value_range[OF assms(1)] digit_value_range[OF assms(2)] by (auto simp: x_def y_def)
  have n: "Number [a, b] = 10 * x + y" "\<not> Number [a, b] < 0"
    using xy by (auto simp: Number_2 x_def y_def)
  have ca: "char_of (48 + x) = a" and cb: "char_of (48 + y) = b"
    using assms digit_char_of by (auto simp: x_def y_def)
  show ?thesis
  proof (cases "x = 0")
    case True
    then have "a = CHR ''0''" using ca char_of_48 by simp
    then show ?thesis using n xy True cb by (simp add: toString_def digits_of_small padStart_def)
  next
    case False
    then have "10 \<le> 10 * x + y" "10 * x + y < 100" using xy by auto
    then have "digits_of (10 * x + y) = [char_of (48 + (10 * x + y) div 10), char_of (48 + (10 * x + y) mod 10)]"
      by (rule digits_of_two)
    moreover have "(10 * x + y) div 10 = x" "(10 * x + y) mod 10 = y" using xy by auto
    ultimately show ?thesis using n ca cb by (simp add: toString_def padStart_def)
  qed
qed

lemma dropWhile_id: "xs = [] \<or> \<not> P (hd xs) \<Longrightarrow> dropWhile P xs = xs"
  by (cases xs) auto

lemma strip_ends_id: "xs = [] \<or> (\<not> P (hd xs) \<and> \<not> P (last xs)) \<Longrightarrow> strip_ends P xs = xs"
proof -
  assume a: "xs = [] \<or> (\<not> P (hd xs) \<and> \<not> P (last xs))"
  then have 1: "dropWhile P xs = xs" by (intro dropWhile_id) auto
  have "rev xs = [] \<or> \<not> P (hd (rev xs))" using a by (auto simp: hd_rev)
  then have "dropWhile P (rev xs) = rev xs" by (rule dropWhile_id)
  with 1 show ?thesis by (simp add: strip_ends_def)
qed

lemma strip_ends_surround:
  assumes "\<forall>x \<in> set a. P x" "\<forall>x \<in> set b. P x"
  shows "strip_ends P (a @ xs @ b) = strip_ends P xs"
proof -
  have 1: "dropWhile P (a @ xs @ b) = dropWhile P (xs @ b)"
    using assms(1) by (intro dropWhile_append2) auto
  show ?thesis
  proof (cases "\<forall>x \<in> set xs. P x")
    case True
    have d1: "dropWhile P (xs @ b) = []" using True assms(2) by auto
    have d2: "dropWhile P xs = []" using True by auto
    show ?thesis unfolding strip_ends_def 1 d1 d2 ..
  next
    case False
    then obtain x where "x \<in> set xs" "\<not> P x" by blast
    then have "dropWhile P (xs @ b) = dropWhile P xs @ b" by (rule dropWhile_append1)
    then have 2: "rev (dropWhile P (xs @ b)) = rev b @ rev (dropWhile P xs)" by simp
    have 3: "dropWhile P (rev b @ rev (dropWhile P xs)) = dropWhile P (rev (dropWhile P xs))"
      using assms(2) by (intro dropWhile_append2) auto
    show ?thesis unfolding strip_ends_def 1 2 3 ..
  qed
qed

lemma match_time_Some:
  "match_time s = Some (g1, g2) \<longleftrightarrow>
     (\<exists>h m1 m2. s = [h, CHR '':'', m1, m2] \<and> is_digit h \<and> is_digit m1 \<and> is_digit m2
        \<and> g1 = [h] \<and> g2 = [m1, m2])
   \<or> (\<exists>h1 h2 m1 m2. s = [h1, h2, CHR '':'', m1, m2] \<and> is_digit h1 \<and> is_digit h2
        \<and> is_digit m1 \<and> is_digit m2 \<and> g1 = [h1, h2] \<and> g2 = [m1, m2])"
  by (induction s rule: match_time.induct) auto


lemma trim_time_shape: "match_time s = Some g \<Longrightarrow> trim s = s"
proof -
  assume "match_time s = Some g"
  then obtain g1 g2 where "match_time s = Some (g1, g2)" by (cases g) auto
  then have "s \<noteq> [] \<and> is_digit (hd s) \<and> is_digit (last s)"
    unfolding match_time_Some by auto
  then show ?thesis unfolding trim_def by (intro strip_ends_id) (auto dest: digit_not_space)
qed

lemma normalizeTime_one_digit:
  assumes "is_digit h" "is_digit m1" "is_digit m2" "trim s = [h, CHR '':'', m1, m2]"
  shows "normalizeTime s =
           (if Number [m1, m2] \<le> 59 then Inr [CHR ''0'', h, CHR '':'', m1, m2]
            else Inl InvalidEventTimeValue)"
proof -
  have "0 \<le> Number [h]" "Number [h] \<le> 23" "0 \<le> Number [m1, m2]"
    using assms(1-3) digit_value_range[of h] digit_value_range[of m1] digit_value_range[of m2]
    by (auto simp: Number_1 Number_2)
  then show ?thesis
    using assms by (simp add: normalizeTime_def Let_def pad2_digit pad2_digits)
qed

lemma normalizeTime_two_digits:
  assumes "is_digit h1" "is_digit h2" "is_digit m1" "is_digit m2"
    "trim s = [h1, h2, CHR '':'', m1, m2]"
  shows "normalizeTime s =
           (if Number [h1, h2] \<le> 23 \<and> Number [m1, m2] \<le> 59 then Inr [h1, h2, CHR '':'', m1, m2]
            else Inl InvalidEventTimeValue)"
proof -
  have "0 \<le> Number [h1, h2]" "0 \<le> Number [m1, m2]"
    using assms(1-4) digit_value_range[of h1] digit_value_range[of h2]
      digit_value_range[of m1] digit_value_range[of m2]
    by (auto simp: Number_2)
  then show ?thesis
    using assms by (simp add: normalizeTime_def Let_def pad2_digits) 
qed

lemma Number_nonneg: "list_all is_digit s \<Longrightarrow> 0 \<le> Number s"
proof -
  have "list_all is_digit s \<Longrightarrow> 0 \<le> a \<Longrightarrow> 0 \<le> foldl (\<lambda>n c. 10 * n + digit_value c) a s" for a
  proof (induction s arbitrary: a)
    case Nil then show ?case by simp
  next
    case (Cons c cs)
    then have "0 \<le> 10 * a + digit_value c" using digit_value_range[of c] by simp
    with Cons show ?case by simp
  qed
  then show "list_all is_digit s \<Longrightarrow> 0 \<le> Number s" by (simp add: Number_def)
qed

lemma match_time_digits:
  "match_time s = Some (g1, g2) \<Longrightarrow> list_all is_digit g1 \<and> list_all is_digit g2"
  unfolding match_time_Some by auto

lemma normalizeTime_format: "normalizeTime s = Inl InvalidEventTimeFormat \<longleftrightarrow> match_time (trim s) = None"
  by (auto simp: normalizeTime_def Let_def split: option.splits)

lemma normalizeTime_success:
  "normalizeTime s = Inr r \<longleftrightarrow>
      (\<exists>h m1 m2. is_digit h \<and> is_digit m1 \<and> is_digit m2 \<and> Number [m1, m2] \<le> 59
         \<and> trim s = [h, CHR '':'', m1, m2] \<and> r = [CHR ''0'', h, CHR '':'', m1, m2])
    \<or> (\<exists>h1 h2 m1 m2. is_digit h1 \<and> is_digit h2 \<and> is_digit m1 \<and> is_digit m2
         \<and> Number [h1, h2] \<le> 23 \<and> Number [m1, m2] \<le> 59
         \<and> trim s = [h1, h2, CHR '':'', m1, m2] \<and> r = [h1, h2, CHR '':'', m1, m2])"
  (is "?L \<longleftrightarrow> ?A \<or> ?B")
proof
  assume L: ?L
  then obtain g1 g2 where m: "match_time (trim s) = Some (g1, g2)"
    by (auto simp: normalizeTime_def Let_def split: option.splits)
  then consider
    (one) h m1 m2 where "trim s = [h, CHR '':'', m1, m2]" "is_digit h" "is_digit m1" "is_digit m2"
  | (two) h1 h2 m1 m2 where "trim s = [h1, h2, CHR '':'', m1, m2]" "is_digit h1" "is_digit h2"
      "is_digit m1" "is_digit m2"
    unfolding match_time_Some by blast
  then show "?A \<or> ?B"
  proof cases
    case one
    from normalizeTime_one_digit[OF one(2-4) one(1)] L
    have "Number [m1, m2] \<le> 59 \<and> r = [CHR ''0'', h, CHR '':'', m1, m2]"
      by (auto split: if_splits)
    with one have ?A by blast
    then show ?thesis ..
  next
    case two
    from normalizeTime_two_digits[OF two(2-5) two(1)] L
    have "Number [h1, h2] \<le> 23 \<and> Number [m1, m2] \<le> 59 \<and> r = [h1, h2, CHR '':'', m1, m2]"
      by (auto split: if_splits)
    with two have ?B by blast
    then show ?thesis ..
  qed
next
  assume "?A \<or> ?B"
  then show ?L
  proof
    assume ?A
    then obtain h m1 m2 where "is_digit h" "is_digit m1" "is_digit m2" "Number [m1, m2] \<le> 59"
      "trim s = [h, CHR '':'', m1, m2]" "r = [CHR ''0'', h, CHR '':'', m1, m2]" by blast
    then show ?L using normalizeTime_one_digit[of h m1 m2 s] by simp
  next
    assume ?B
    then obtain h1 h2 m1 m2 where "is_digit h1" "is_digit h2" "is_digit m1" "is_digit m2"
      "Number [h1, h2] \<le> 23" "Number [m1, m2] \<le> 59"
      "trim s = [h1, h2, CHR '':'', m1, m2]" "r = [h1, h2, CHR '':'', m1, m2]" by blast
    then show ?L using normalizeTime_two_digits[of h1 h2 m1 m2 s] by simp
  qed
qed

lemma normalizeTime_value:
  "normalizeTime s = Inl InvalidEventTimeValue \<longleftrightarrow>
     (\<exists>g1 g2. match_time (trim s) = Some (g1, g2) \<and> (Number g1 > 23 \<or> Number g2 > 59))"
proof (cases "match_time (trim s)")
  case None
  then show ?thesis by (simp add: normalizeTime_def)
next
  case (Some g)
  obtain g1 g2 where g: "g = (g1, g2)" by (cases g)
  have "0 \<le> Number g1 \<and> 0 \<le> Number g2"
    using Some g match_time_digits[of "trim s" g1 g2] Number_nonneg by simp
  then show ?thesis using Some g by (auto simp: normalizeTime_def Let_def)
qed

lemma normalizeTime_surrounded:
  assumes "\<forall>c \<in> set a. is_space c" "\<forall>c \<in> set b. is_space c"
  shows "normalizeTime (a @ s @ b) = normalizeTime s"
proof -
  have "trim (a @ s @ b) = trim s" unfolding trim_def using assms by (rule strip_ends_surround)
  then show ?thesis by (simp add: normalizeTime_def)
qed

lemma normalizeTime_idempotent:
  assumes "normalizeTime s = Inr r"
  shows "normalizeTime r = Inr r"
proof -
  from assms obtain h1 h2 m1 m2 where d: "is_digit h1" "is_digit h2" "is_digit m1" "is_digit m2"
    and n: "Number [h1, h2] \<le> 23" "Number [m1, m2] \<le> 59" and r: "r = [h1, h2, CHR '':'', m1, m2]"
  proof -
    have z: "is_digit CHR ''0''" by (simp add: is_digit_def)
    have z0: "digit_value CHR ''0'' = 0" by (simp add: digit_value_def)
    from assms consider
      (one) h m1 m2 where "is_digit h" "is_digit m1" "is_digit m2" "Number [m1, m2] \<le> 59"
        "r = [CHR ''0'', h, CHR '':'', m1, m2]"
    | (two) h1 h2 m1 m2 where "is_digit h1" "is_digit h2" "is_digit m1" "is_digit m2"
        "Number [h1, h2] \<le> 23" "Number [m1, m2] \<le> 59" "r = [h1, h2, CHR '':'', m1, m2]"
      unfolding normalizeTime_success by blast
    then show ?thesis
    proof cases
      case one
      have "Number [CHR ''0'', h] \<le> 23"
        using digit_value_range[OF one(1)] by (simp add: Number_2 z0)
      with one z that show ?thesis by blast
    next
      case two
      with that show ?thesis by blast
    qed
  qed
  have "trim r = r" unfolding trim_def r using d
    by (intro strip_ends_id) (auto dest: digit_not_space)
  then have "trim r = [h1, h2, CHR '':'', m1, m2]" using r by simp
  from normalizeTime_two_digits[OF d this] n r show ?thesis by simp
qed

text \<open>
  Claim C3, as the code has it. The pattern is matched against the trimmed input:
  \<open>normalizeTime\<close> succeeds exactly when the trimmed input is \<open>H:MM\<close> with a minute of at
  most 59, giving \<open>0H:MM\<close>, or \<open>HH:MM\<close> with an hour of at most 23 and a minute of at most
  59, which it gives back. It fails with the format error exactly when the trimmed input
  does not match the pattern, and with the value error exactly when it matches with an
  hour above 23 or a minute above 59. \<open>9:00\<close> gives \<open>09:00\<close>, \<open>23:59\<close> gives \<open>23:59\<close>,
  \<open>24:00\<close> and \<open>9:0\<close> fail.
\<close>

theorem normalizeTime_exact:
  "(normalizeTime s = Inr r \<longleftrightarrow>
      (\<exists>h m1 m2. is_digit h \<and> is_digit m1 \<and> is_digit m2 \<and> Number [m1, m2] \<le> 59
         \<and> trim s = [h, CHR '':'', m1, m2] \<and> r = [CHR ''0'', h, CHR '':'', m1, m2])
    \<or> (\<exists>h1 h2 m1 m2. is_digit h1 \<and> is_digit h2 \<and> is_digit m1 \<and> is_digit m2
         \<and> Number [h1, h2] \<le> 23 \<and> Number [m1, m2] \<le> 59
         \<and> trim s = [h1, h2, CHR '':'', m1, m2] \<and> r = [h1, h2, CHR '':'', m1, m2]))
   \<and> (normalizeTime s = Inl InvalidEventTimeFormat \<longleftrightarrow> match_time (trim s) = None)
   \<and> (normalizeTime s = Inl InvalidEventTimeValue \<longleftrightarrow>
        (\<exists>g1 g2. match_time (trim s) = Some (g1, g2) \<and> (Number g1 > 23 \<or> Number g2 > 59)))
   \<and> normalizeTime ''9:00'' = Inr ''09:00''
   \<and> normalizeTime ''23:59'' = Inr ''23:59''
   \<and> normalizeTime ''24:00'' = Inl InvalidEventTimeValue
   \<and> normalizeTime ''9:0'' = Inl InvalidEventTimeFormat"
proof (intro conjI)
  show "normalizeTime ''9:00'' = Inr ''09:00''" by code_simp
  show "normalizeTime ''23:59'' = Inr ''23:59''" by code_simp
  show "normalizeTime ''24:00'' = Inl InvalidEventTimeValue" by code_simp
  show "normalizeTime ''9:0'' = Inl InvalidEventTimeFormat" by code_simp
qed (rule normalizeTime_success normalizeTime_format normalizeTime_value)+

text \<open>
  Claim C3 as stated fails: \<open>" 9:00 "\<close> does not match the pattern, a space where the
  hour should start, and \<open>normalizeTime\<close> succeeds on it.
\<close>

theorem normalizeTime_untrimmed_counterexample:
  "match_time '' 9:00 '' = None \<and> normalizeTime '' 9:00 '' = Inr ''09:00''"
  by code_simp

text \<open>
  Claim C9. White space around a valid time changes nothing: when \<open>normalizeTime\<close>
  succeeds on \<open>s\<close>, it succeeds with the same result on \<open>s\<close> with white space before and
  after it.
\<close>

theorem normalizeTime_trims:
  assumes "normalizeTime s = Inr r" "\<forall>c \<in> set a. is_space c" "\<forall>c \<in> set b. is_space c"
  shows "normalizeTime (a @ s @ b) = Inr r"
  using assms normalizeTime_surrounded[of a b s] by simp

theorem normalizeTime_trims_witness:
  "normalizeTime ''21:30'' = Inr ''21:30''
   \<and> is_space CHR '' '' \<and> is_space (CHR 0x09) \<and> is_space (CHR 0x0A)
   \<and> normalizeTime ([CHR '' '', CHR 0x09] @ ''21:30'' @ [CHR 0x0A, CHR '' '']) = Inr ''21:30''"
proof -
  have 1: "normalizeTime ''21:30'' = Inr ''21:30''" by code_simp
  have 2: "is_space CHR '' ''" "is_space (CHR 0x09)" "is_space (CHR 0x0A)"
    by (simp_all add: is_space_def)
  have 3: "\<forall>c \<in> set [CHR '' '', CHR 0x09]. is_space c" using 2 by simp
  have 4: "\<forall>c \<in> set [CHR 0x0A, CHR '' '']. is_space c" using 2 by simp
  from normalizeTime_trims[OF 1 3 4] 1 2 show ?thesis by blast
qed

section \<open>Properties of the calendar\<close>

lemma div_bounds:
  fixes x k :: int
  assumes "0 < k"
  shows "k * (x div k) \<le> x \<and> x < k * (x div k) + k"
proof -
  have "k * (x div k) + x mod k = x" by simp
  moreover have "0 \<le> x mod k" "x mod k < k" using assms by simp_all
  ultimately show ?thesis by linarith
qed

lemma year_lower_arith:
  fixes q a b c d :: int
  assumes "146097 * q \<le> 400 * d" "4 * a \<le> q" "q + 68 < 100 * b + 100" "400 * c \<le> q + 368"
  shows "365 * (q - 1) + a - b + c \<le> d"
proof -
  have 1: "400 * a \<le> 100 * q" using assms(2) by linarith
  have 2: "4 * q - 128 < 400 * b" using assms(3) by linarith
  have 3: "400 * a - 400 * b + 400 * c \<le> 97 * q + 496" using 1 2 assms(4) by linarith
  have 4: "146000 * q - 146000 + (400 * a - 400 * b + 400 * c) \<le> 400 * d"
    using 3 assms(1) by linarith
  have "400 * (365 * (q - 1) + a - b + c) = 146000 * q - 146000 + (400 * a - 400 * b + 400 * c)"
    by (simp add: algebra_simps)
  with 4 have "400 * (365 * (q - 1) + a - b + c) \<le> 400 * d" by simp
  then show ?thesis by simp
qed

lemma year_upper_arith:
  fixes q a b c d :: int
  assumes "400 * d < 146097 * q + 146097" "q + 3 < 4 * a + 4" "100 * b \<le> q + 71"
    "q + 371 < 400 * c + 400"
  shows "d < 365 * (q + 2) + a - b + c"
proof -
  have 1: "100 * q - 100 < 400 * a" using assms(2) by linarith
  have 2: "400 * b \<le> 4 * q + 284" using assms(3) by linarith
  have 3: "q - 29 < 400 * c" using assms(4) by linarith
  have 4: "97 * q - 413 < 400 * a - 400 * b + 400 * c" using 1 2 3 by linarith
  have 5: "400 * d < 146000 * q + 292000 + (400 * a - 400 * b + 400 * c)"
    using 4 assms(1) by linarith
  have "400 * (365 * (q + 2) + a - b + c) = 146000 * q + 292000 + (400 * a - 400 * b + 400 * c)"
    by (simp add: algebra_simps)
  with 5 have "400 * d < 400 * (365 * (q + 2) + a - b + c)" by simp
  then show ?thesis by simp
qed

lemma YearFromDay_lower: "DayFromYear (1970 + (400 * d) div 146097 - 1) \<le> d"
proof -
  define q where "q = (400 * d) div 146097"
  define a where "a = q div 4"
  define b where "b = (q + 68) div 100"
  define c where "c = (q + 368) div 400"
  have q: "146097 * q \<le> 400 * d" unfolding q_def using div_bounds[of 146097 "400 * d"] by simp
  have a: "4 * a \<le> q" unfolding a_def using div_bounds[of 4 q] by simp
  have b: "q + 68 < 100 * b + 100" unfolding b_def using div_bounds[of 100 "q + 68"] by simp
  have c: "400 * c \<le> q + 368" unfolding c_def using div_bounds[of 400 "q + 368"] by simp
  have "DayFromYear (1970 + q - 1) = 365 * (q - 1) + a - b + c"
    unfolding DayFromYear_def a_def b_def c_def by (simp add: algebra_simps)
  also have "\<dots> \<le> d" using q a b c by (rule year_lower_arith)
  finally show ?thesis unfolding q_def .
qed

lemma YearFromDay_upper: "d < DayFromYear (1970 + (400 * d) div 146097 + 2)"
proof -
  define q where "q = (400 * d) div 146097"
  define a where "a = (q + 3) div 4"
  define b where "b = (q + 71) div 100"
  define c where "c = (q + 371) div 400"
  have q: "400 * d < 146097 * q + 146097" unfolding q_def using div_bounds[of 146097 "400 * d"] by simp
  have a: "q + 3 < 4 * a + 4" unfolding a_def using div_bounds[of 4 "q + 3"] by simp
  have b: "100 * b \<le> q + 71" unfolding b_def using div_bounds[of 100 "q + 71"] by simp
  have c: "q + 371 < 400 * c + 400" unfolding c_def using div_bounds[of 400 "q + 371"] by simp
  have "DayFromYear (1970 + q + 2) = 365 * (q + 2) + a - b + c"
    unfolding DayFromYear_def a_def b_def c_def by (simp add: algebra_simps)
  moreover have "d < 365 * (q + 2) + a - b + c" using q a b c by (rule year_upper_arith)
  ultimately show ?thesis unfolding q_def by simp
qed

lemma YearFromDay_bounds:
  "DayFromYear (YearFromDay d) \<le> d \<and> d < DayFromYear (YearFromDay d + 1)"
proof -
  define y where "y = 1970 + (400 * d) div 146097"
  have l: "DayFromYear (y - 1) \<le> d" unfolding y_def by (rule YearFromDay_lower)
  have u: "d < DayFromYear (y + 1 + 1)" unfolding y_def using YearFromDay_upper[of d] by simp
  have Y: "YearFromDay d =
           (if d < DayFromYear y then y - 1 else if DayFromYear (y + 1) \<le> d then y + 1 else y)"
    unfolding YearFromDay_def y_def Let_def ..
  show ?thesis unfolding Y using l u by auto
qed

lemma div_step:
  fixes x k :: int
  assumes "0 < k"
  shows "(x + 1) div k = x div k + (if (x + 1) mod k = 0 then 1 else 0)"
proof -
  have r: "0 \<le> x mod k" "x mod k < k" using assms by simp_all
  show ?thesis
  proof (cases "x mod k = k - 1")
    case True
    have e: "x + 1 = k * (x div k + 1) + 0"
    proof -
      have "x + 1 = k * (x div k) + x mod k + 1" by simp
      also have "\<dots> = k * (x div k) + k" using True by simp
      finally show ?thesis by (simp add: algebra_simps)
    qed
    have "(x + 1) div k = x div k + 1" by (rule int_div_pos_eq[OF e]) (use assms in simp_all)
    moreover have "(x + 1) mod k = 0" by (rule int_mod_pos_eq[OF e]) (use assms in simp_all)
    ultimately show ?thesis by simp
  next
    case False
    have e: "x + 1 = k * (x div k) + (x mod k + 1)" by simp
    have b: "0 \<le> x mod k + 1" "x mod k + 1 < k" using r False by linarith+
    have "(x + 1) div k = x div k" by (rule int_div_pos_eq[OF e b])
    moreover have "(x + 1) mod k = x mod k + 1" by (rule int_mod_pos_eq[OF e b])
    ultimately show ?thesis using r by simp
  qed
qed

lemma div_year_step:
  fixes y k c :: int
  assumes "0 < k" "k dvd c"
  shows "(y - c) div k = (y - (c + 1)) div k + (if y mod k = 0 then 1 else 0)"
proof -
  have "(y - (c + 1) + 1) div k = (y - (c + 1)) div k + (if (y - (c + 1) + 1) mod k = 0 then 1 else 0)"
    using assms(1) by (rule div_step)
  moreover have "y - (c + 1) + 1 = y - c" by simp
  moreover have "(y - c) mod k = 0 \<longleftrightarrow> y mod k = 0"
    using assms(2) by (simp add: mod_eq_0_iff_dvd dvd_diff_left_iff)
  ultimately show ?thesis by simp
qed

lemma leap_400_100: "(y::int) mod 400 = 0 \<Longrightarrow> y mod 100 = 0"
proof -
  assume "y mod 400 = 0"
  then have "400 dvd y" by (simp add: mod_eq_0_iff_dvd)
  moreover have "(100::int) dvd 400" by simp
  ultimately have "100 dvd y" using dvd_trans by blast
  then show ?thesis by (simp add: mod_eq_0_iff_dvd)
qed

lemma leap_100_4: "(y::int) mod 100 = 0 \<Longrightarrow> y mod 4 = 0"
proof -
  assume "y mod 100 = 0"
  then have "100 dvd y" by (simp add: mod_eq_0_iff_dvd)
  moreover have "(4::int) dvd 100" by simp
  ultimately have "4 dvd y" using dvd_trans by blast
  then show ?thesis by (simp add: mod_eq_0_iff_dvd)
qed

lemma DayFromYear_Suc: "DayFromYear (y + 1) = DayFromYear y + 365 + InLeapYear y"
proof -
  have 4: "(y - 1968) div 4 = (y - 1969) div 4 + (if y mod 4 = 0 then 1 else 0)"
    using div_year_step[of 4 1968 y] by simp
  have 100: "(y - 1900) div 100 = (y - 1901) div 100 + (if y mod 100 = 0 then 1 else 0)"
    using div_year_step[of 100 1900 y] by simp
  have 400: "(y - 1600) div 400 = (y - 1601) div 400 + (if y mod 400 = 0 then 1 else 0)"
    using div_year_step[of 400 1600 y] by simp
  have "DayFromYear (y + 1) =
        365 * (y - 1970) + 365 + (y - 1968) div 4 - (y - 1900) div 100 + (y - 1600) div 400"
    unfolding DayFromYear_def by (simp add: algebra_simps)
  also have "\<dots> = DayFromYear y + 365 + InLeapYear y"
    unfolding 4 100 400 DayFromYear_def InLeapYear_def
    using leap_400_100[of y] leap_100_4[of y] by auto
  finally show ?thesis .
qed

lemma InLeapYear_cases: "InLeapYear y = 0 \<or> InLeapYear y = 1"
  by (simp add: InLeapYear_def)

lemma DayWithinYear_range:
  "0 \<le> DayWithinYear t \<and> DayWithinYear t < 365 + InLeapYear (YearFromTime t)"
  using YearFromDay_bounds[of "Day t"] DayFromYear_Suc[of "YearFromDay (Day t)"]
  unfolding DayWithinYear_def YearFromTime_def by linarith

lemma month_table:
  assumes "l = 0 \<or> l = 1" "0 \<le> d" "d < 365 + l"
  shows "0 \<le> month_of_day l d \<and> month_of_day l d \<le> 11
         \<and> month_start l (month_of_day l d) \<le> d
         \<and> d - month_start l (month_of_day l d) + 1 \<le>
             (if month_of_day l d = 1 then 28 + l
              else if month_of_day l d = 3 \<or> month_of_day l d = 5 \<or> month_of_day l d = 8
                      \<or> month_of_day l d = 10 then 30 else 31)"
  using assms unfolding month_of_day_def month_start_def by auto

section \<open>Printing and parsing numbers and dates\<close>

lemma digit_char:
  assumes "0 \<le> n" "n < 10"
  shows "is_digit (char_of (48 + n)) \<and> digit_value (char_of (48 + n)) = n"
proof -
  have "(of_char (char_of (48 + n)) :: int) = (48 + n) mod 256" by (rule of_char_of)
  also have "\<dots> = 48 + n" using assms by simp
  finally show ?thesis unfolding is_digit_int digit_value_code using assms by simp
qed

lemma Number_snoc: "Number (s @ [c]) = 10 * Number s + digit_value c"
  by (simp add: Number_def)

lemma digits_of_digits: "0 \<le> n \<Longrightarrow> list_all is_digit (digits_of n)"
proof (induction n rule: digits_of.induct)
  case (1 n)
  show ?case
  proof (cases "n < 10")
    case True
    then show ?thesis using digit_char[of n] 1(2) by (simp add: digits_of.simps)
  next
    case False
    then have "list_all is_digit (digits_of (n div 10))" using 1 by simp
    moreover have "is_digit (char_of (48 + n mod 10))" using digit_char[of "n mod 10"] by simp
    ultimately show ?thesis using False by (subst digits_of.simps) simp
  qed
qed

lemma Number_digits_of: "0 \<le> n \<Longrightarrow> Number (digits_of n) = n"
proof (induction n rule: digits_of.induct)
  case (1 n)
  show ?case
  proof (cases "n < 10")
    case True
    then show ?thesis using digit_char[of n] 1(2) by (simp add: digits_of.simps Number_def)
  next
    case False
    then have "Number (digits_of (n div 10)) = n div 10" using 1 by simp
    moreover have "digit_value (char_of (48 + n mod 10)) = n mod 10"
      using digit_char[of "n mod 10"] by simp
    ultimately have "Number (digits_of (n div 10) @ [char_of (48 + n mod 10)]) = n"
      unfolding Number_snoc by simp
    then show ?thesis using False by (subst digits_of.simps) simp
  qed
qed

lemma length_digits_of: "n < 10 ^ k \<Longrightarrow> 0 < k \<Longrightarrow> length (digits_of n) \<le> k"
proof (induction n arbitrary: k rule: digits_of.induct)
  case (1 n)
  show ?case
  proof (cases "n < 10")
    case True
    then show ?thesis using 1(3) by (simp add: digits_of.simps)
  next
    case False
    obtain j where k: "k = Suc j" using 1(3) by (cases k) auto
    have "j \<noteq> 0" using False 1(2) k by (cases j) auto
    moreover have "n div 10 < 10 ^ j"
    proof -
      have "n < 10 * 10 ^ j" using 1(2) k by simp
      then show ?thesis using div_bounds[of 10 n] by linarith
    qed
    ultimately have "length (digits_of (n div 10)) \<le> j" using 1(1)[OF False] by simp
    then show ?thesis using False k by (subst digits_of.simps) simp
  qed
qed

lemma Number_zeros: "Number (replicate j CHR ''0'' @ s) = Number s"
proof -
  have "foldl (\<lambda>n c. 10 * n + digit_value c) 0 (replicate j CHR ''0'') = 0"
    by (induction j) (simp_all add: digit_value_def)
  then show ?thesis by (simp add: Number_def)
qed

lemma padded_number:
  assumes "0 \<le> i" "i < 10 ^ k" "0 < k"
  shows "all_digits k (padStart k CHR ''0'' (toString i))"
    and "Number (padStart k CHR ''0'' (toString i)) = i"
proof -
  have t: "toString i = digits_of i" using assms(1) by (simp add: toString_def)
  have len: "length (digits_of i) \<le> k" using assms(2,3) by (rule length_digits_of)
  have z: "is_digit CHR ''0''" by (simp add: is_digit_def)
  show "all_digits k (padStart k CHR ''0'' (toString i))"
    unfolding all_digits_def padStart_def t using len digits_of_digits[OF assms(1)] z
    by (auto simp: list_all_iff)
  show "Number (padStart k CHR ''0'' (toString i)) = i"
    unfolding padStart_def t Number_zeros using assms(1) by (rule Number_digits_of)
qed

lemma all_digits_hd: "all_digits k s \<Longrightarrow> 0 < k \<Longrightarrow> s \<noteq> [] \<and> is_digit (hd s)"
  by (cases s) (auto simp: all_digits_def)

lemma digit_not_sign: "is_digit c \<Longrightarrow> c \<noteq> CHR ''+'' \<and> c \<noteq> CHR ''-'' \<and> c \<noteq> CHR ''T''"
  by (auto simp: is_digit_def)

lemma parse_year_year_string:
  assumes "- 999999 \<le> y" "y \<le> 999999"
  shows "parse_year (year_string y @ rest) = Some (y, rest)"
proof (cases "0 \<le> y \<and> y \<le> 9999")
  case True
  let ?p = "padStart 4 CHR ''0'' (toString y)"
  have d: "all_digits 4 ?p" and n: "Number ?p = y"
    using True padded_number[of y 4] by simp_all
  obtain c cs where p: "?p = c # cs" using all_digits_hd[OF d] by (cases ?p) auto
  have c: "is_digit c" using all_digits_hd[OF d] p by simp
  have l: "length ?p = 4" using d by (simp add: all_digits_def)
  have tk: "take 4 (?p @ rest) = ?p" "drop 4 (?p @ rest) = rest" using l by simp_all
  have "parse_year (?p @ rest) = Some (y, rest)"
    unfolding parse_year_def tk[unfolded p] p append_Cons list.case
    using digit_not_sign[OF c] d n tk unfolding p by simp
  then show ?thesis using True by (simp add: year_string_def)
next
  case False
  let ?p = "padStart 6 CHR ''0'' (toString \<bar>y\<bar>)"
  have "\<bar>y\<bar> < 10 ^ 6" using assms by simp
  then have d: "all_digits 6 ?p" and n: "Number ?p = \<bar>y\<bar>"
    using padded_number[of "\<bar>y\<bar>" 6] by simp_all
  have l: "length ?p = 6" using d by (simp add: all_digits_def)
  have tk: "take 6 (?p @ rest) = ?p" "drop 6 (?p @ rest) = rest" using l by simp_all
  show ?thesis
  proof (cases "y < 0")
    case True
    then show ?thesis using False d n tk by (simp add: year_string_def parse_year_def)
  next
    case False2: False
    then show ?thesis using False d n tk by (simp add: year_string_def parse_year_def)
  qed
qed

lemma parse_field_padded:
  assumes "0 \<le> v" "v < 100"
  shows "parse_field (''-'' @ padStart 2 CHR ''0'' (toString v) @ rest) = Some (v, rest)"
proof -
  let ?p = "padStart 2 CHR ''0'' (toString v)"
  have d: "all_digits 2 ?p" and n: "Number ?p = v"
    using assms padded_number[of v 2] by simp_all
  have l: "length ?p = 2" using d by (simp add: all_digits_def)
  have tk: "take 2 (?p @ rest) = ?p" "drop 2 (?p @ rest) = rest" using l by simp_all
  show ?thesis using d n tk by (simp add: parse_field_def)
qed

lemma Day_range:
  assumes "\<bar>t\<bar> \<le> 8640000000000000"
  shows "- 100000000 \<le> Day t \<and> Day t \<le> 100000000"
proof -
  have "86400000 * (t div 86400000) \<le> t \<and> t < 86400000 * (t div 86400000) + 86400000"
    by (rule div_bounds) simp
  then show ?thesis using assms unfolding Day_def msPerDay_def by linarith
qed

lemma Day_of_midnight: "Day (d * msPerDay) = d"
  by (simp add: Day_def msPerDay_def)

lemma TimeClip_midnight:
  assumes "\<bar>t\<bar> \<le> 8640000000000000"
  shows "TimeClip (Day t * msPerDay) = Some (Day t * msPerDay)"
proof -
  have "- 8640000000000000 \<le> Day t * 86400000 \<and> Day t * 86400000 \<le> 8640000000000000"
    using Day_range[OF assms] by linarith
  then have "\<bar>Day t * 86400000\<bar> \<le> 8640000000000000" by (simp add: abs_le_iff)
  then show ?thesis by (simp add: TimeClip_def msPerDay_def)
qed

lemma year_range_arith:
  fixes y a b c :: int
  assumes "4 * a \<le> y - 1969" "y - 1969 < 4 * a + 4" "100 * b \<le> y - 1901" "y - 1901 < 100 * b + 100"
    "400 * c \<le> y - 1601" "y - 1601 < 400 * c + 400"
  shows "365 * (y - 1970) + a - b + c \<le> 100000000 \<Longrightarrow> y \<le> 999998"
    and "- 100000000 < 365 * (y - 1970) + a - b + c \<Longrightarrow> - 999998 \<le> y"
proof -
  define S where "S = 365 * (y - 1970) + a - b + c"
  have e: "400 * S = 146000 * y - 287620000 + (400 * a - 400 * b + 400 * c)"
    by (simp add: S_def algebra_simps)
  have l1: "100 * y - 197300 < 400 * a" using assms(2) by linarith
  have l2: "400 * b \<le> 4 * y - 7604" using assms(3) by linarith
  have l3: "y - 2001 < 400 * c" using assms(6) by linarith
  have l: "97 * y - 191697 < 400 * a - 400 * b + 400 * c" using l1 l2 l3 by linarith
  have u1: "400 * a \<le> 100 * y - 196900" using assms(1) by linarith
  have u2: "4 * y - 8004 < 400 * b" using assms(4) by linarith
  have u3: "400 * c \<le> y - 1601" using assms(5) by linarith
  have u: "400 * a - 400 * b + 400 * c \<le> 97 * y - 190497" using u1 u2 u3 by linarith
  {
    assume "365 * (y - 1970) + a - b + c \<le> 100000000"
    then have "S \<le> 100000000" by (simp add: S_def)
    then have "400 * S \<le> 40000000000" by linarith
    then have "146097 * y \<le> 40287811697" using e l by linarith
    then show "y \<le> 999998" by linarith
  }
  {
    assume "- 100000000 < 365 * (y - 1970) + a - b + c"
    then have "- 100000000 < S" by (simp add: S_def)
    then have "- 40000000000 < 400 * S" by linarith
    then have "- 40287810497 < 146097 * y" using e u by linarith
    then show "- 999998 \<le> y" by linarith
  }
qed

lemma DayFromYear_range:
  shows "DayFromYear y \<le> 100000000 \<Longrightarrow> y \<le> 999998"
    and "- 100000000 < DayFromYear y \<Longrightarrow> - 999998 \<le> y"
proof -
  define a where "a = (y - 1969) div 4"
  define b where "b = (y - 1901) div 100"
  define c where "c = (y - 1601) div 400"
  have a: "4 * a \<le> y - 1969" "y - 1969 < 4 * a + 4"
    unfolding a_def using div_bounds[of 4 "y - 1969"] by simp_all
  have b: "100 * b \<le> y - 1901" "y - 1901 < 100 * b + 100"
    unfolding b_def using div_bounds[of 100 "y - 1901"] by simp_all
  have c: "400 * c \<le> y - 1601" "y - 1601 < 400 * c + 400"
    unfolding c_def using div_bounds[of 400 "y - 1601"] by simp_all
  have D: "DayFromYear y = 365 * (y - 1970) + a - b + c"
    unfolding DayFromYear_def a_def b_def c_def ..
  show "DayFromYear y \<le> 100000000 \<Longrightarrow> y \<le> 999998"
    unfolding D using a b c by (rule year_range_arith(1))
  show "- 100000000 < DayFromYear y \<Longrightarrow> - 999998 \<le> y"
    unfolding D using a b c by (rule year_range_arith(2))
qed

lemma YearFromTime_range:
  assumes "\<bar>t\<bar> \<le> 8640000000000000"
  shows "- 999999 \<le> YearFromTime t \<and> YearFromTime t \<le> 999999"
proof -
  let ?y = "YearFromDay (Day t)"
  have d: "- 100000000 \<le> Day t" "Day t \<le> 100000000" using Day_range[OF assms] by simp_all
  have b: "DayFromYear ?y \<le> Day t" "Day t < DayFromYear (?y + 1)"
    using YearFromDay_bounds[of "Day t"] by simp_all
  have "?y \<le> 999998" using b(1) d(2) by (intro DayFromYear_range(1)) linarith
  moreover have "- 999998 \<le> ?y + 1" using b(2) d(1) by (intro DayFromYear_range(2)) linarith
  ultimately show ?thesis unfolding YearFromTime_def by linarith
qed

lemma month_date_range:
  "0 \<le> MonthFromTime t \<and> MonthFromTime t \<le> 11 \<and> 1 \<le> DateFromTime t
   \<and> DateFromTime t \<le> DaysInMonth (YearFromTime t) (MonthFromTime t)"
  using month_table[OF InLeapYear_cases[of "YearFromTime t"], of "DayWithinYear t"]
    DayWithinYear_range[of t]
  unfolding MonthFromTime_def DateFromTime_def DaysInMonth_def by auto

lemma DaysInMonth_le: "DaysInMonth y m \<le> 31"
  using InLeapYear_cases[of y] by (auto simp: DaysInMonth_def)

lemma MakeDay_of_date: "MakeDay (YearFromTime t) (MonthFromTime t) (DateFromTime t) = Day t"
  unfolding MakeDay_def DateFromTime_def MonthFromTime_def DayWithinYear_def by simp

lemma utc_midnight_of_date:
  "utc_midnight (YearFromTime t) (MonthFromTime t + 1) (DateFromTime t) = Some (Day t * msPerDay)"
  using month_date_range[of t] MakeDay_of_date[of t] by (simp add: utc_midnight_def)

lemma parse_date_string:
  assumes "\<bar>t\<bar> \<le> 8640000000000000"
  shows "parse_date_only (date_string t) = Some (Day t * msPerDay)"
proof -
  let ?Y = "YearFromTime t" and ?M = "MonthFromTime t + 1" and ?D = "DateFromTime t"
  let ?d = "''-'' @ padStart 2 CHR ''0'' (toString ?D)"
  let ?md = "''-'' @ padStart 2 CHR ''0'' (toString ?M) @ ?d"
  have yr: "- 999999 \<le> ?Y" "?Y \<le> 999999" using YearFromTime_range[OF assms] by simp_all
  have md: "0 \<le> ?M" "?M < 100" "0 \<le> ?D" "?D < 100"
    using month_date_range[of t] DaysInMonth_le[of "YearFromTime t" "MonthFromTime t"] by simp_all
  have s: "date_string t = year_string ?Y @ ?md" by (simp add: date_string_def)
  have 1: "parse_year (year_string ?Y @ ?md) = Some (?Y, ?md)"
    using yr by (rule parse_year_year_string)
  have 2: "parse_field ?md = Some (?M, ?d)" using md(1,2) by (rule parse_field_padded)
  have 3: "parse_field ?d = Some (?D, [])" using parse_field_padded[OF md(3,4), of "[]"] by simp
  have "parse_date_only (date_string t) = utc_midnight ?Y ?M ?D"
    unfolding s parse_date_only_def 1 option.case prod.case 2 3 by simp
  then show ?thesis by (simp add: utc_midnight_of_date)
qed

lemma date_string_Day: "Day t = Day t' \<Longrightarrow> date_string t = date_string t'"
  by (simp add: date_string_def YearFromTime_def MonthFromTime_def DateFromTime_def
      DayWithinYear_def)

lemma padded_no_T: "CHR ''T'' \<notin> set (padStart k CHR ''0'' (toString i))"
proof -
  have "0 \<le> n \<Longrightarrow> CHR ''T'' \<notin> set (digits_of n)" for n
    using digits_of_digits[of n] digit_not_sign[of "CHR ''T''"] by (auto simp: list_all_iff)
  then show ?thesis by (auto simp: padStart_def toString_def)
qed

lemma date_string_no_T: "CHR ''T'' \<notin> set (date_string t)"
  using padded_no_T by (auto simp: date_string_def year_string_def)

lemma before_T_toISOString: "before_T (toISOString t) = date_string t"
proof -
  have "takeWhile (\<lambda>c. c \<noteq> CHR ''T'') (date_string t @ ''T'' @ time_string t @ ''Z'')
        = date_string t @ takeWhile (\<lambda>c. c \<noteq> CHR ''T'') (''T'' @ time_string t @ ''Z'')"
    using date_string_no_T[of t] by (intro takeWhile_append2) auto
  then show ?thesis by (simp add: before_T_def toISOString_def)
qed

lemma new_Date_valid: "new_Date engine s = Some t \<Longrightarrow> \<bar>t\<bar> \<le> 8640000000000000"
  by (auto simp: new_Date_def TimeClip_def split: option.splits if_splits)

lemma normalizeDate_success:
  "normalizeDate engine s = Inr r \<longleftrightarrow> (\<exists>t. new_Date engine s = Some t \<and> r = date_string t)"
  by (auto simp: normalizeDate_def before_T_toISOString split: option.splits)

lemma normalizeDate_failure:
  "normalizeDate engine s = Inl e \<longleftrightarrow> new_Date engine s = None \<and> e = InvalidEventDate"
  by (auto simp: normalizeDate_def split: option.splits)

lemma normalizeDate_date_string:
  assumes "\<bar>t\<bar> \<le> 8640000000000000"
  shows "normalizeDate engine (date_string t) = Inr (date_string t)"
proof -
  have "new_Date engine (date_string t) = Some (Day t * msPerDay)"
    by (simp add: new_Date_def parse_date_string[OF assms] TimeClip_midnight[OF assms])
  moreover have "date_string (Day t * msPerDay) = date_string t"
    by (rule date_string_Day) (simp add: Day_of_midnight)
  ultimately show ?thesis unfolding normalizeDate_success by simp
qed

lemma normalizeDate_idempotent:
  assumes "normalizeDate engine s = Inr r"
  shows "normalizeDate engine r = Inr r"
proof -
  from assms obtain t where "new_Date engine s = Some t" "r = date_string t"
    unfolding normalizeDate_success by blast
  then show ?thesis using normalizeDate_date_string[OF new_Date_valid] by simp
qed

section \<open>Properties of the date normalizer\<close>

lemma date_string_form:
  assumes "\<bar>t\<bar> \<le> 8640000000000000" "0 \<le> YearFromTime t" "YearFromTime t \<le> 9999"
  shows "\<exists>y m d. all_digits 4 y \<and> all_digits 2 m \<and> all_digits 2 d
           \<and> date_string t = y @ ''-'' @ m @ ''-'' @ d"
proof -
  have md: "0 \<le> MonthFromTime t + 1" "MonthFromTime t + 1 < 100" "0 \<le> DateFromTime t"
    "DateFromTime t < 100"
    using month_date_range[of t] DaysInMonth_le[of "YearFromTime t" "MonthFromTime t"] by simp_all
  have "all_digits 4 (padStart 4 CHR ''0'' (toString (YearFromTime t)))"
    using assms(2,3) by (intro padded_number(1)) simp_all
  moreover have "all_digits 2 (padStart 2 CHR ''0'' (toString (MonthFromTime t + 1)))"
    using md(1,2) by (intro padded_number(1)) simp_all
  moreover have "all_digits 2 (padStart 2 CHR ''0'' (toString (DateFromTime t)))"
    using md(3,4) by (intro padded_number(1)) simp_all
  moreover have "date_string t = padStart 4 CHR ''0'' (toString (YearFromTime t)) @ ''-''
      @ padStart 2 CHR ''0'' (toString (MonthFromTime t + 1)) @ ''-''
      @ padStart 2 CHR ''0'' (toString (DateFromTime t))"
    using assms(2,3) by (simp add: date_string_def year_string_def)
  ultimately show ?thesis by blast
qed

lemma normalizeDate_examples:
  "normalizeDate engine ''2025-01-31'' = Inr ''2025-01-31''"
  "engine ''not-a-date'' = None \<Longrightarrow> normalizeDate engine ''not-a-date'' = Inl InvalidEventDate"
proof -
  show "normalizeDate engine ''2025-01-31'' = Inr ''2025-01-31''" by code_simp
  have "parse_date_only ''not-a-date'' = None" by code_simp
  then show "engine ''not-a-date'' = None \<Longrightarrow> normalizeDate engine ''not-a-date'' = Inl InvalidEventDate"
    by (simp add: normalizeDate_def new_Date_def)
qed

text \<open>
  Claim C6, at a year beyond 9999. The string \<open>+010000-01-01\<close> is the first day of the
  year 10000 in the Date Time String Format; \<open>toISOString\<close> writes that year with a sign
  and six digits, and \<open>normalizeDate\<close> returns thirteen characters, not \<open>YYYY-MM-DD\<close>.
  Whatever the engine does with other strings, this one is parsed as written here.
\<close>

theorem normalizeDate_expanded_year:
  "normalizeDate engine ''+010000-01-01'' = Inr ''+010000-01-01''"
  by code_simp

text \<open>
  Claim C7. Both normalizers give back their own results: when \<open>normalizeDate\<close> succeeds
  with \<open>r\<close>, it succeeds on \<open>r\<close> with \<open>r\<close>, and so does \<open>normalizeTime\<close>.
\<close>

theorem normalizers_idempotent:
  "(normalizeDate engine s = Inr r \<longrightarrow> normalizeDate engine r = Inr r)
   \<and> (normalizeTime s' = Inr r' \<longrightarrow> normalizeTime r' = Inr r')"
  using normalizeDate_idempotent normalizeTime_idempotent by blast

theorem normalizers_idempotent_witness:
  "normalizeDate (\<lambda>s. None) ''2025-03'' = Inr ''2025-03-01''
   \<and> normalizeDate (\<lambda>s. None) ''2025-03-01'' = Inr ''2025-03-01''
   \<and> normalizeTime ''9:05'' = Inr ''09:05''
   \<and> normalizeTime ''09:05'' = Inr ''09:05''"
proof -
  have 1: "normalizeDate (\<lambda>s. None) ''2025-03'' = Inr ''2025-03-01''" by code_simp
  have 2: "normalizeTime ''9:05'' = Inr ''09:05''" by code_simp
  from normalizers_idempotent[of "\<lambda>s. None" "''2025-03''" "''2025-03-01''" "''9:05''" "''09:05''"] 1 2
  show ?thesis by blast
qed

section \<open>Properties of the Event validation hook\<close>













section \<open>Properties of the Booking save hook\<close>

lemma preSave_unmodified: "\<not> eventId_modified this \<Longrightarrow> preSave db this = (None, db)"
  by (simp add: preSave_def)

lemma preSave_modified:
  "eventId_modified this \<Longrightarrow>
     preSave db this =
       (if eventId this \<in> set (events db) then None else Some ReferencedEventMissing,
        db\<lparr>exists_queries := exists_queries db @ [eventId this]\<rparr>)"
  by (simp add: preSave_def Event_exists_def)

text \<open>
  Claim C5. When \<open>eventId\<close> was modified and no Event has that identifier, the hook fails
  with the referential-integrity error after one query, and \<open>save\<close> fails with it and
  leaves the stored Bookings and Events as they were. When an Event has it, the hook
  passes and the Booking is stored. When \<open>eventId\<close> was not modified, the hook passes and
  the database is as before: no query was made.
\<close>

theorem preSave_referential_integrity:
  "(eventId_modified this \<and> eventId this \<notin> set (events db) \<longrightarrow>
      preSave db this
        = (Some ReferencedEventMissing, db\<lparr>exists_queries := exists_queries db @ [eventId this]\<rparr>)
      \<and> fst (save db this) = Some ReferencedEventMissing
      \<and> bookings (snd (save db this)) = bookings db
      \<and> events (snd (save db this)) = events db)
   \<and> (eventId_modified this \<and> eventId this \<in> set (events db) \<longrightarrow>
      fst (preSave db this) = None
      \<and> fst (save db this) = None
      \<and> bookings (snd (save db this)) = bookings db @ [(eventId this, email this)])
   \<and> (\<not> eventId_modified this \<longrightarrow> preSave db this = (None, db))"
  by (auto simp: save_def preSave_modified preSave_unmodified)

theorem preSave_referential_integrity_witness:
  "save \<lparr>events = [1, 2], bookings = [(1, ''ana@example.org'')], exists_queries = []\<rparr>
        \<lparr>eventId = 7, email = ''rui@example.org'', eventId_modified = True\<rparr>
     = (Some ReferencedEventMissing,
        \<lparr>events = [1, 2], bookings = [(1, ''ana@example.org'')], exists_queries = [7]\<rparr>)
   \<and> preSave \<lparr>events = [1, 2], bookings = [(1, ''ana@example.org'')], exists_queries = []\<rparr>
        \<lparr>eventId = 7, email = ''ana@example.org'', eventId_modified = False\<rparr>
     = (None, \<lparr>events = [1, 2], bookings = [(1, ''ana@example.org'')], exists_queries = []\<rparr>)"
proof -
  let ?db = "\<lparr>events = [1, 2], bookings = [(1, ''ana@example.org'')], exists_queries = []\<rparr>"
  let ?new = "\<lparr>eventId = 7, email = ''rui@example.org'', eventId_modified = True\<rparr>"
  let ?old = "\<lparr>eventId = 7, email = ''ana@example.org'', eventId_modified = False\<rparr>"
  have h: "eventId_modified ?new \<and> eventId ?new \<notin> set (events ?db)" by simp
  have "preSave ?db ?new
        = (Some ReferencedEventMissing, ?db\<lparr>exists_queries := exists_queries ?db @ [eventId ?new]\<rparr>)"
    using preSave_referential_integrity[of ?new ?db] h by blast
  then have 1: "save ?db ?new = (Some ReferencedEventMissing, \<lparr>events = [1, 2],
      bookings = [(1, ''ana@example.org'')], exists_queries = [7]\<rparr>)"
    by (simp add: save_def)
  have "\<not> eventId_modified ?old" by simp
  then have 2: "preSave ?db ?old = (None, ?db)"
    using preSave_referential_integrity[of ?old ?db] by blast
  from 1 2 show ?thesis by blast
qed

section \<open>Properties of the connection cache\<close>

lemma cache_inv_start: "cache_inv start"
  by (simp add: cache_inv_def start_def)

lemma cache_inv_connectToDatabase:
  assumes "cache_inv s"
  shows "cache_inv (connectToDatabase s)"
proof (cases "conn (cached s)")
  case (Some h)
  then have c: "connectToDatabase s = s\<lparr>calls := calls s @ [Returned h]\<rparr>"
    by (simp add: connectToDatabase_def)
  show ?thesis unfolding c using assms Some by (auto simp: cache_inv_def)
next
  case None
  show ?thesis
  proof (cases "promise (cached s)")
    case (Some p)
    then have c: "connectToDatabase s = s\<lparr>calls := calls s @ [Awaiting p]\<rparr>"
      using None by (simp add: connectToDatabase_def)
    show ?thesis unfolding c using assms Some by (auto simp: cache_inv_def)
  next
    case N: None
    then have e: "promises s = []" "calls s = []" using assms by (auto simp: cache_inv_def)
    have c: "connectToDatabase s =
             s\<lparr>promises := [Pending], cached := (cached s)\<lparr>promise := Some 0\<rparr>, calls := [Awaiting 0]\<rparr>"
      using None N e by (simp add: connectToDatabase_def mongoose_connect_def)
    show ?thesis unfolding c using None by (simp add: cache_inv_def)
  qed
qed

lemma singleton_nth: "length xs = Suc 0 \<Longrightarrow> xs = [xs ! 0]"
  by (cases xs) auto

lemma cache_inv_settle:
  assumes "cache_inv s"
  shows "cache_inv (settle p r s)"
proof (cases "p < length (promises s) \<and> promises s ! p = Pending")
  case False
  then show ?thesis using assms by (auto simp: settle_def)
next
  case True
  then have "promises s \<noteq> []" by auto
  then obtain q where q: "promise (cached s) = Some q" using assms by (auto simp: cache_inv_def)
  then have l: "length (promises s) = 1" using assms by (auto simp: cache_inv_def)
  then have p0: "p = 0" using True by simp
  have ps: "promises s = [Pending]" using singleton_nth[of "promises s"] l True p0 by simp
  define v where "v = (case r of Inl e \<Rightarrow> Rejected e | Inr h \<Rightarrow> Fulfilled h)"
  have c: "settle p r s = s\<lparr>promises := [v]\<rparr>"
    using True ps p0 by (simp add: settle_def v_def)
  show ?thesis unfolding c using assms q ps by (auto simp: cache_inv_def)
qed

lemma cache_inv_resume:
  assumes "cache_inv s"
  shows "cache_inv (resume c s)"
proof (cases "c < length (calls s)")
  case False
  then show ?thesis using assms by (simp add: resume_def)
next
  case True
  show ?thesis
  proof (cases "calls s ! c")
    case (Returned h)
    then show ?thesis using assms True by (simp add: resume_def)
  next
    case (Threw e)
    then show ?thesis using assms True by (simp add: resume_def)
  next
    case (Awaiting p)
    then have "Awaiting p \<in> set (calls s)" using True nth_mem by fastforce
    then have p0: "p = 0" using assms by (auto simp: cache_inv_def)
    have "calls s \<noteq> []" using True by auto
    then obtain q where q: "promise (cached s) = Some q" using assms by (auto simp: cache_inv_def)
    then have l: "length (promises s) = 1" using assms by (auto simp: cache_inv_def)
    have ps: "promises s = [promises s ! 0]" using singleton_nth[of "promises s"] l by simp
    have sub: "set ((calls s)[c := v]) \<subseteq> insert v (set (calls s))" for v
      by (rule set_update_subset_insert)
    show ?thesis
    proof (cases "promises s ! 0")
      case Pending
      then show ?thesis using assms True Awaiting p0 l by (simp add: resume_def)
    next
      case (Fulfilled h)
      then have c: "resume c s =
          s\<lparr>cached := (cached s)\<lparr>conn := Some h\<rparr>, calls := (calls s)[c := Returned h]\<rparr>"
        using True Awaiting p0 l by (simp add: resume_def)
      have f: "promises s = [Fulfilled h]" using ps Fulfilled by simp
      show ?thesis unfolding c using assms q f sub[of "Returned h"]
        by (auto simp: cache_inv_def)
    next
      case (Rejected e)
      then have c: "resume c s = s\<lparr>calls := (calls s)[c := Threw e]\<rparr>"
        using True Awaiting p0 l by (simp add: resume_def)
      have f: "promises s = [Rejected e]" using ps Rejected by simp
      show ?thesis unfolding c using assms q f sub[of "Threw e"]
        by (auto simp: cache_inv_def)
    qed
  qed
qed

lemma cache_inv_step: "cache_inv s \<Longrightarrow> cache_inv (step s ev)"
  by (cases ev) (simp_all add: cache_inv_connectToDatabase cache_inv_settle cache_inv_resume)

lemma cache_inv_run: "cache_inv s \<Longrightarrow> cache_inv (run s evs)"
  unfolding run_def by (induction evs arbitrary: s) (simp_all add: cache_inv_step)

lemma run_append: "run s (evs @ evs') = run (run s evs) evs'"
  by (simp add: run_def)

lemma run_snoc: "run s (evs @ [ev]) = step (run s evs) ev"
  by (simp add: run_def)

lemma run_calls:
  "run start (replicate (Suc n) Call) =
     \<lparr>cached = \<lparr>conn = None, promise = Some 0\<rparr>, promises = [Pending],
      calls = replicate (Suc n) (Awaiting 0)\<rparr>"
proof (induction n)
  case 0
  show ?case by (simp add: run_def start_def connectToDatabase_def mongoose_connect_def)
next
  case (Suc n)
  have "replicate (Suc (Suc n)) Call = replicate (Suc n) Call @ [Call]"
    by (simp only: replicate_append_same) simp
  then have "run start (replicate (Suc (Suc n)) Call) = step (run start (replicate (Suc n) Call)) Call"
    by (simp only: run_snoc)
  also have "\<dots> = \<lparr>cached = \<lparr>conn = None, promise = Some 0\<rparr>, promises = [Pending],
      calls = replicate (Suc n) (Awaiting 0) @ [Awaiting 0]\<rparr>"
    unfolding Suc by (simp add: connectToDatabase_def)
  finally show ?case by (simp only: replicate_append_same) simp
qed

lemma update_next:
  assumes "k < n"
  shows "(replicate k a @ replicate (n - k) b)[k := a] = replicate (Suc k) a @ replicate (n - Suc k) b"
proof -
  obtain m where m: "n - k = Suc m" using assms by (cases "n - k") auto
  then have m': "n - Suc k = m" by simp
  have "(replicate k a @ replicate (n - k) b)[k := a] = replicate k a @ (replicate (n - k) b)[0 := a]"
    by (simp add: list_update_append)
  also have "\<dots> = replicate k a @ [a] @ replicate m b" unfolding m by simp
  also have "\<dots> = replicate (Suc k) a @ replicate m b"
    using replicate_append_same[of k a] by simp
  finally show ?thesis unfolding m' .
qed

lemma run_resumes:
  assumes "k \<le> n"
  shows "run \<lparr>cached = \<lparr>conn = None, promise = Some 0\<rparr>, promises = [Fulfilled h],
              calls = replicate n (Awaiting 0)\<rparr> (map Resume [0..<k]) =
         \<lparr>cached = \<lparr>conn = (if k = 0 then None else Some h), promise = Some 0\<rparr>,
          promises = [Fulfilled h],
          calls = replicate k (Returned h) @ replicate (n - k) (Awaiting 0)\<rparr>"
  using assms
proof (induction k)
  case 0
  show ?case by (simp add: run_def)
next
  case (Suc k)
  then have k: "k < n" by simp
  let ?s = "\<lparr>cached = \<lparr>conn = (if k = 0 then None else Some h), promise = Some 0\<rparr>,
          promises = [Fulfilled h],
          calls = replicate k (Returned h) @ replicate (n - k) (Awaiting 0)\<rparr>"
  have nth: "(replicate k (Returned h) @ replicate (n - k) (Awaiting 0)) ! k = Awaiting 0"
    using k by (simp add: nth_append)
  have "run \<lparr>cached = \<lparr>conn = None, promise = Some 0\<rparr>, promises = [Fulfilled h],
              calls = replicate n (Awaiting 0)\<rparr> (map Resume [0..<Suc k]) = resume k ?s"
    using Suc by (simp add: run_snoc)
  also have "\<dots> = \<lparr>cached = \<lparr>conn = Some h, promise = Some 0\<rparr>, promises = [Fulfilled h],
          calls = (replicate k (Returned h) @ replicate (n - k) (Awaiting 0))[k := Returned h]\<rparr>"
    using k nth by (simp add: resume_def)
  finally show ?case using update_next[OF k] by simp
qed

lemma run_concurrent_calls:
  "run start (replicate (Suc n) Call @ [Settle 0 (Inr h)] @ map Resume [0..<Suc n]) =
     \<lparr>cached = \<lparr>conn = Some h, promise = Some 0\<rparr>, promises = [Fulfilled h],
      calls = replicate (Suc n) (Returned h)\<rparr>"
proof -
  have "run start (replicate (Suc n) Call @ [Settle 0 (Inr h)]) =
        \<lparr>cached = \<lparr>conn = None, promise = Some 0\<rparr>, promises = [Fulfilled h],
         calls = replicate (Suc n) (Awaiting 0)\<rparr>"
    unfolding run_snoc run_calls by (simp add: settle_def)
  then have "run start (replicate (Suc n) Call @ [Settle 0 (Inr h)] @ map Resume [0..<Suc n]) =
        run \<lparr>cached = \<lparr>conn = None, promise = Some 0\<rparr>, promises = [Fulfilled h],
         calls = replicate (Suc n) (Awaiting 0)\<rparr> (map Resume [0..<Suc n])"
    using run_append[of start "replicate (Suc n) Call @ [Settle 0 (Inr h)]" "map Resume [0..<Suc n]"]
    by simp
  also have "\<dots> = \<lparr>cached = \<lparr>conn = Some h, promise = Some 0\<rparr>, promises = [Fulfilled h],
      calls = replicate (Suc n) (Returned h)\<rparr>"
    using run_resumes[of "Suc n" "Suc n" h] by simp
  finally show ?thesis .
qed

lemma fulfilled_state:
  assumes "cache_inv s" "promises s = [Fulfilled h]"
  shows "promise (cached s) = Some 0"
    and "conn (cached s) = None \<or> conn (cached s) = Some h"
    and "\<forall>c \<in> set (calls s). c = Awaiting 0 \<or> c = Returned h"
proof -
  show "promise (cached s) = Some 0"
    using assms by (cases "promise (cached s)") (auto simp: cache_inv_def)
  show "conn (cached s) = None \<or> conn (cached s) = Some h"
  proof (cases "conn (cached s)")
    case None
    then show ?thesis by simp
  next
    case (Some h')
    then have "promises s = [Fulfilled h']" using assms(1) unfolding cache_inv_def by blast
    then show ?thesis using assms(2) Some by simp
  qed
  show "\<forall>c \<in> set (calls s). c = Awaiting 0 \<or> c = Returned h"
  proof
    fix c assume c: "c \<in> set (calls s)"
    show "c = Awaiting 0 \<or> c = Returned h"
    proof (cases c)
      case (Awaiting q)
      then have "q = 0" using c assms(1) unfolding cache_inv_def by blast
      then show ?thesis using Awaiting by simp
    next
      case (Returned h')
      then have "promises s = [Fulfilled h']" using c assms(1) unfolding cache_inv_def by blast
      then show ?thesis using assms(2) Returned by simp
    next
      case (Threw e)
      then have "promises s = [Rejected e]" using c assms(1) unfolding cache_inv_def by blast
      then show ?thesis using assms(2) by simp
    qed
  qed
qed

lemma pending_state:
  assumes "cache_inv s" "promises s = [Pending]"
  shows "\<forall>c \<in> set (calls s). c = Awaiting 0"
proof
  fix c assume c: "c \<in> set (calls s)"
  show "c = Awaiting 0"
  proof (cases c)
    case (Awaiting q)
    then have "q = 0" using c assms(1) unfolding cache_inv_def by blast
    then show ?thesis using Awaiting by simp
  next
    case (Returned h)
    then have "promises s = [Fulfilled h]" using c assms(1) unfolding cache_inv_def by blast
    then show ?thesis using assms(2) by simp
  next
    case (Threw e)
    then have "promises s = [Rejected e]" using c assms(1) unfolding cache_inv_def by blast
    then show ?thesis using assms(2) by simp
  qed
qed

lemma fulfilled_resume:
  assumes "cache_inv s" "promises s = [Fulfilled h]" "c < length (calls s)"
  shows "calls (resume c s) ! c = Returned h"
proof -
  have "calls s ! c = Awaiting 0 \<or> calls s ! c = Returned h"
    using fulfilled_state(3)[OF assms(1,2)] assms(3) nth_mem by blast
  then show ?thesis using assms(2,3) by (auto simp: resume_def)
qed

lemma fulfilled_new_call:
  assumes "cache_inv s" "promises s = [Fulfilled h]"
  shows "promises (resume (length (calls s)) (connectToDatabase s)) = [Fulfilled h]
    \<and> calls (resume (length (calls s)) (connectToDatabase s)) = calls s @ [Returned h]"
proof -
  note p = fulfilled_state(1)[OF assms]
  from fulfilled_state(2)[OF assms] show ?thesis
  proof
    assume n: "conn (cached s) = None"
    then have new: "connectToDatabase s = s\<lparr>calls := calls s @ [Awaiting 0]\<rparr>"
      using p by (simp add: connectToDatabase_def)
    show ?thesis unfolding new using assms(2) by (simp add: resume_def)
  next
    assume c: "conn (cached s) = Some h"
    then have new: "connectToDatabase s = s\<lparr>calls := calls s @ [Returned h]\<rparr>"
      by (simp add: connectToDatabase_def)
    show ?thesis unfolding new using assms(2) by (simp add: resume_def)
  qed
qed

text \<open>
  Claim C1. Let \<open>s\<close> be the process after any calls, settlements and resumptions, in any
  order. \<open>mongoose.connect\<close> has been called at most once, and exactly once as soon as
  there is a call. A call that has returned has returned what the one promise was
  fulfilled with, so any two have returned the same handle. While the promise is pending
  every call awaits it. Once it is fulfilled with \<open>h\<close>, every call has returned \<open>h\<close> or
  awaits the promise, every call has returned \<open>h\<close> after it goes on, and a new call
  returns \<open>h\<close> with no new promise. In particular, when a number of calls are made before
  the promise is fulfilled with \<open>h0\<close> and then all go on, there is one promise and every
  call has returned \<open>h0\<close>.
\<close>

theorem single_connection_attempt:
  assumes "s = run start evs"
  shows "length (promises s) \<le> 1
   \<and> (calls s \<noteq> [] \<longrightarrow> length (promises s) = 1)
   \<and> (\<forall>h h'. Returned h \<in> set (calls s) \<and> Returned h' \<in> set (calls s) \<longrightarrow> h = h')
   \<and> (\<forall>h. Returned h \<in> set (calls s) \<longrightarrow> promises s = [Fulfilled h])
   \<and> (promises s = [Pending] \<longrightarrow> (\<forall>c \<in> set (calls s). c = Awaiting 0))
   \<and> (\<forall>h. promises s = [Fulfilled h] \<longrightarrow>
         (\<forall>c \<in> set (calls s). c = Awaiting 0 \<or> c = Returned h)
         \<and> (\<forall>c < length (calls s). calls (resume c s) ! c = Returned h)
         \<and> promises (resume (length (calls s)) (connectToDatabase s)) = [Fulfilled h]
         \<and> calls (resume (length (calls s)) (connectToDatabase s)) = calls s @ [Returned h])
   \<and> promises (run start (replicate (Suc n) Call @ [Settle 0 (Inr h0)] @ map Resume [0..<Suc n]))
        = [Fulfilled h0]
   \<and> calls (run start (replicate (Suc n) Call @ [Settle 0 (Inr h0)] @ map Resume [0..<Suc n]))
        = replicate (Suc n) (Returned h0)"
proof -
  have i: "cache_inv s" unfolding assms using cache_inv_start by (rule cache_inv_run)
  have 1: "length (promises s) \<le> 1"
    using i by (cases "promise (cached s)") (auto simp: cache_inv_def)
  have 2: "calls s \<noteq> [] \<longrightarrow> length (promises s) = 1"
    using i by (cases "promise (cached s)") (auto simp: cache_inv_def)
  have 4: "\<forall>h. Returned h \<in> set (calls s) \<longrightarrow> promises s = [Fulfilled h]"
    using i unfolding cache_inv_def by blast
  have 3: "\<forall>h h'. Returned h \<in> set (calls s) \<and> Returned h' \<in> set (calls s) \<longrightarrow> h = h'"
  proof (intro allI impI)
    fix h h'
    assume r: "Returned h \<in> set (calls s) \<and> Returned h' \<in> set (calls s)"
    have "promises s = [Fulfilled h]" using 4 r by blast
    moreover have "promises s = [Fulfilled h']" using 4 r by blast
    ultimately show "h = h'" by simp
  qed
  have 5: "promises s = [Pending] \<longrightarrow> (\<forall>c \<in> set (calls s). c = Awaiting 0)"
    using pending_state[OF i] by blast
  have 6: "\<forall>h. promises s = [Fulfilled h] \<longrightarrow>
         (\<forall>c \<in> set (calls s). c = Awaiting 0 \<or> c = Returned h)
         \<and> (\<forall>c < length (calls s). calls (resume c s) ! c = Returned h)
         \<and> promises (resume (length (calls s)) (connectToDatabase s)) = [Fulfilled h]
         \<and> calls (resume (length (calls s)) (connectToDatabase s)) = calls s @ [Returned h]"
  proof (intro allI impI)
    fix h assume f: "promises s = [Fulfilled h]"
    show "(\<forall>c \<in> set (calls s). c = Awaiting 0 \<or> c = Returned h)
         \<and> (\<forall>c < length (calls s). calls (resume c s) ! c = Returned h)
         \<and> promises (resume (length (calls s)) (connectToDatabase s)) = [Fulfilled h]
         \<and> calls (resume (length (calls s)) (connectToDatabase s)) = calls s @ [Returned h]"
      using fulfilled_state(3)[OF i f] fulfilled_resume[OF i f] fulfilled_new_call[OF i f]
      by blast
  qed
  have 7:
    "promises (run start (replicate (Suc n) Call @ [Settle 0 (Inr h0)] @ map Resume [0..<Suc n]))
       = [Fulfilled h0]
     \<and> calls (run start (replicate (Suc n) Call @ [Settle 0 (Inr h0)] @ map Resume [0..<Suc n]))
       = replicate (Suc n) (Returned h0)"
    unfolding run_concurrent_calls by simp
  from 1 2 3 4 5 6 7 show ?thesis by blast
qed

theorem single_connection_attempt_witness:
  "run start [Call, Call, Settle 0 (Inr 7), Resume 1, Call]
     = \<lparr>cached = \<lparr>conn = Some 7, promise = Some 0\<rparr>, promises = [Fulfilled 7],
        calls = [Awaiting 0, Returned 7, Returned 7]\<rparr>
   \<and> length (promises (run start [Call, Call, Settle 0 (Inr 7), Resume 1, Call])) = 1
   \<and> calls (resume 0 (run start [Call, Call, Settle 0 (Inr 7), Resume 1, Call])) ! 0 = Returned 7
   \<and> calls (resume 3 (connectToDatabase (run start [Call, Call, Settle 0 (Inr 7), Resume 1, Call])))
     = [Awaiting 0, Returned 7, Returned 7, Returned 7]"
proof -
  let ?s = "run start [Call, Call, Settle 0 (Inr 7), Resume 1, Call]"
  have 1: "?s = \<lparr>cached = \<lparr>conn = Some 7, promise = Some 0\<rparr>, promises = [Fulfilled 7],
        calls = [Awaiting 0, Returned 7, Returned 7]\<rparr>"
    by (simp add: run_def start_def connectToDatabase_def mongoose_connect_def settle_def resume_def)
  have c: "calls ?s = [Awaiting 0, Returned 7, Returned 7]" unfolding 1 by simp
  have p: "promises ?s = [Fulfilled 7]" unfolding 1 by simp
  have n: "calls ?s \<noteq> []" "0 < length (calls ?s)" unfolding c by simp_all
  note t = single_connection_attempt[OF refl, of "[Call, Call, Settle 0 (Inr 7), Resume 1, Call]"]
  have a: "length (promises ?s) = 1" using t n(1) by blast
  have b: "calls (resume 0 ?s) ! 0 = Returned 7" using t p n(2) by blast
  have "calls (resume (length (calls ?s)) (connectToDatabase ?s)) = calls ?s @ [Returned 7]"
    using t p by blast
  then have d: "calls (resume 3 (connectToDatabase ?s)) = [Awaiting 0, Returned 7, Returned 7, Returned 7]"
    unfolding c by (simp add: numeral_3_eq_3)
  from 1 a b d show ?thesis by blast
qed

lemma rejected_step:
  assumes "cache_inv s" "promises s = [Rejected e]"
  shows "promises (step s ev) = [Rejected e]"
proof (cases ev)
  case Call
  have "promise (cached s) \<noteq> None" using assms by (auto simp: cache_inv_def)
  then show ?thesis using assms(2) Call
    by (auto simp: connectToDatabase_def split: option.splits)
next
  case (Settle p r)
  then show ?thesis using assms(2) by (cases p) (simp_all add: settle_def)
next
  case (Resume c)
  then show ?thesis using assms(2)
    by (auto simp: resume_def split: call_state.splits promise_state.splits)
qed

lemma rejected_run:
  assumes "cache_inv s" "promises s = [Rejected e]"
  shows "promises (run s evs) = [Rejected e]"
  using assms unfolding run_def
  by (induction evs arbitrary: s) (simp_all add: cache_inv_step rejected_step)

lemma rejected_state:
  assumes "cache_inv s" "promises s = [Rejected e]"
  shows "promise (cached s) = Some 0" "conn (cached s) = None"
    "\<forall>c \<in> set (calls s). c = Awaiting 0 \<or> c = Threw e"
proof -
  show "promise (cached s) = Some 0"
    using assms by (cases "promise (cached s)") (auto simp: cache_inv_def)
  show "conn (cached s) = None"
    using assms by (cases "conn (cached s)") (auto simp: cache_inv_def)
  show "\<forall>c \<in> set (calls s). c = Awaiting 0 \<or> c = Threw e"
  proof
    fix c assume c: "c \<in> set (calls s)"
    show "c = Awaiting 0 \<or> c = Threw e"
    proof (cases c)
      case (Awaiting q)
      then have "q = 0" using c assms(1) unfolding cache_inv_def by blast
      then show ?thesis using Awaiting by simp
    next
      case (Returned h)
      then have "promises s = [Fulfilled h]" using c assms(1) unfolding cache_inv_def by blast
      then show ?thesis using assms(2) by simp
    next
      case (Threw e')
      then have "promises s = [Rejected e']" using c assms(1) unfolding cache_inv_def by blast
      then show ?thesis using assms(2) Threw by simp
    qed
  qed
qed

text \<open>
  Claim C8. Once the first attempt is rejected with \<open>e\<close>, then whatever happens next:
  the rejected promise is still the only promise and the one the cache holds, no
  connection is cached, every call has thrown \<open>e\<close> or still awaits that promise and
  throws \<open>e\<close> when it goes on, and a new call awaits it and throws \<open>e\<close> too.
\<close>

theorem failed_connection_is_permanent:
  assumes "promises (run start evs) = [Rejected e]" "s = run (run start evs) evs'"
  shows "promises s = [Rejected e] \<and> promise (cached s) = Some 0 \<and> conn (cached s) = None
    \<and> (\<forall>c \<in> set (calls s). c = Awaiting 0 \<or> c = Threw e)
    \<and> (\<forall>c < length (calls s). calls (resume c s) ! c = Threw e)
    \<and> promises (resume (length (calls s)) (connectToDatabase s)) = [Rejected e]
    \<and> calls (resume (length (calls s)) (connectToDatabase s)) = calls s @ [Threw e]"
proof -
  have i0: "cache_inv (run start evs)" using cache_inv_start by (rule cache_inv_run)
  have i: "cache_inv s" unfolding assms(2) using i0 by (rule cache_inv_run)
  have p: "promises s = [Rejected e]" unfolding assms(2) using i0 assms(1) by (rule rejected_run)
  note r = rejected_state[OF i p]
  have res: "\<forall>c < length (calls s). calls (resume c s) ! c = Threw e"
  proof (intro allI impI)
    fix c assume c: "c < length (calls s)"
    then have "calls s ! c = Awaiting 0 \<or> calls s ! c = Threw e" using r(3) nth_mem by blast
    then show "calls (resume c s) ! c = Threw e"
      using c p by (auto simp: resume_def)
  qed
  have new: "connectToDatabase s = s\<lparr>calls := calls s @ [Awaiting 0]\<rparr>"
    using r(1,2) by (simp add: connectToDatabase_def)
  have "resume (length (calls s)) (connectToDatabase s) = s\<lparr>calls := calls s @ [Threw e]\<rparr>"
    unfolding new using p by (simp add: resume_def)
  then show ?thesis using p r res by simp
qed

theorem failed_connection_is_permanent_witness:
  "promises (run start [Call, Call, Settle 0 (Inl ''ECONNREFUSED'')]) = [Rejected ''ECONNREFUSED'']
   \<and> run start ([Call, Call, Settle 0 (Inl ''ECONNREFUSED'')] @ [Resume 1, Call, Settle 0 (Inr 7), Resume 2])
     = \<lparr>cached = \<lparr>conn = None, promise = Some 0\<rparr>, promises = [Rejected ''ECONNREFUSED''],
        calls = [Awaiting 0, Threw ''ECONNREFUSED'', Threw ''ECONNREFUSED'']\<rparr>
   \<and> calls (resume 0 (run (run start [Call, Call, Settle 0 (Inl ''ECONNREFUSED'')])
        [Resume 1, Call, Settle 0 (Inr 7), Resume 2])) ! 0 = Threw ''ECONNREFUSED''"
proof -
  let ?evs = "[Call, Call, Settle 0 (Inl ''ECONNREFUSED'')]"
  let ?evs' = "[Resume 1, Call, Settle 0 (Inr 7), Resume 2]"
  have 1: "promises (run start ?evs) = [Rejected ''ECONNREFUSED'']"
    by (simp add: run_def start_def connectToDatabase_def mongoose_connect_def settle_def)
  have 2: "run start (?evs @ ?evs')
     = \<lparr>cached = \<lparr>conn = None, promise = Some 0\<rparr>, promises = [Rejected ''ECONNREFUSED''],
        calls = [Awaiting 0, Threw ''ECONNREFUSED'', Threw ''ECONNREFUSED'']\<rparr>"
    by (simp add: run_def start_def connectToDatabase_def mongoose_connect_def settle_def resume_def)
  have 3: "run (run start ?evs) ?evs'
     = \<lparr>cached = \<lparr>conn = None, promise = Some 0\<rparr>, promises = [Rejected ''ECONNREFUSED''],
        calls = [Awaiting 0, Threw ''ECONNREFUSED'', Threw ''ECONNREFUSED'']\<rparr>"
    using 2 unfolding run_append .
  have l: "0 < length (calls (run (run start ?evs) ?evs'))"
    unfolding 3 by simp
  from failed_connection_is_permanent[OF 1 refl, of ?evs'] l
  have "calls (resume 0 (run (run start ?evs) ?evs')) ! 0 = Threw ''ECONNREFUSED''" by blast
  with 1 2 show ?thesis by blast
qed

end
